theory Spec2Isabelle
  imports Main "HOL-Library.Word" "HOL-Library.Sublist"
begin

section \<open>JavaScript strings\<close>

text \<open>
  A JavaScript string is a sequence of UTF-16 code units. The regular expressions of the
  content script carry no \<open>u\<close> flag, so they work on code units, and so does this model.
  \<open>js\<close> writes a literal: every character of an ASCII literal is one code unit.
\<close>

type_synonym jschar = "16 word"
type_synonym jsstring = "jschar list"

definition js :: "string \<Rightarrow> jsstring" where
  "js s = map of_char s"

text \<open>
  The class \<open>\s\<close> of ECMAScript: the white space code points and the line terminators.
\<close>

definition is_space :: "jschar \<Rightarrow> bool" where
  "is_space c \<longleftrightarrow>
     (0x9 \<le> c \<and> c \<le> 0xD) \<or> c = 0x20 \<or> c = 0xA0 \<or> c = 0x1680 \<or>
     (0x2000 \<le> c \<and> c \<le> 0x200A) \<or> c = 0x2028 \<or> c = 0x2029 \<or> c = 0x202F \<or>
     c = 0x205F \<or> c = 0x3000 \<or> c = 0xFEFF"

text \<open>The class \<open>\w\<close> is \<open>[A-Za-z0-9_]\<close>; \<open>\W\<close> is its complement.\<close>

definition is_word :: "jschar \<Rightarrow> bool" where
  "is_word c \<longleftrightarrow>
     (0x61 \<le> c \<and> c \<le> 0x7A) \<or> (0x41 \<le> c \<and> c \<le> 0x5A) \<or>
     (0x30 \<le> c \<and> c \<le> 0x39) \<or> c = 0x5F"

text \<open>\<open>String.prototype.indexOf\<close> and \<open>String.prototype.includes\<close>.\<close>

fun indexOf :: "jsstring \<Rightarrow> jsstring \<Rightarrow> nat option" where
  "indexOf [] searchText = (if searchText = [] then Some 0 else None)"
| "indexOf (c # cs) searchText =
     (if prefix searchText (c # cs) then Some 0 else map_option Suc (indexOf cs searchText))"

definition includes_js :: "jsstring \<Rightarrow> jsstring \<Rightarrow> bool" where
  "includes_js s searchText \<longleftrightarrow> indexOf s searchText \<noteq> None"

text \<open>
  \<open>stripPrefix p s\<close> is the rest of \<open>s\<close> after the literal \<open>p\<close>, when \<open>s\<close> starts with it.
\<close>

fun stripPrefix :: "jsstring \<Rightarrow> jsstring \<Rightarrow> jsstring option" where
  "stripPrefix [] s = Some s"
| "stripPrefix (p # ps) [] = None"
| "stripPrefix (p # ps) (c # cs) = (if p = c then stripPrefix ps cs else None)"

section \<open>The mention scanner\<close>

text \<open>
  \<^verbatim>\<open>const URL_REGEX = /@link\s+(https?:\/\/[^\s]+)/g;\<close>

  \<open>URL_REGEX_exec s\<close> is a match of the expression that starts at the first code unit of
  \<open>s\<close>: the whole match \<open>match[0]\<close>, the group \<open>match[1]\<close> and the text after the match.
  The quantifiers are greedy, and backtracking never finds a second way: after the longest
  run of white space comes \<open>h\<close>, which is no white space; after an \<open>s\<close> taken by \<open>s?\<close> must
  come \<open>:\<close>, which is no \<open>s\<close>; the last run is followed by nothing.
\<close>

definition AT_LINK :: jsstring where
  "AT_LINK = js ''@link''"

definition HTTP :: jsstring where
  "HTTP = js ''http''"

definition COLON_SLASHES :: jsstring where
  "COLON_SLASHES = js ''://''"

definition URL_REGEX_exec :: "jsstring \<Rightarrow> (jsstring \<times> jsstring \<times> jsstring) option" where
  "URL_REGEX_exec s =
     (case stripPrefix AT_LINK s of
        None \<Rightarrow> None
      | Some r1 \<Rightarrow>
          let ws = takeWhile is_space r1; r2 = dropWhile is_space r1 in
          if ws = [] then None
          else (case stripPrefix HTTP r2 of
             None \<Rightarrow> None
           | Some r3 \<Rightarrow>
               let opt_s = (case r3 of c # _ \<Rightarrow> if c = 0x73 then [c] else [] | [] \<Rightarrow> []);
                   r4 = drop (length opt_s) r3
               in (case stripPrefix COLON_SLASHES r4 of
                  None \<Rightarrow> None
                | Some r5 \<Rightarrow>
                    let tok = takeWhile (\<lambda>c. \<not> is_space c) r5;
                        rest = dropWhile (\<lambda>c. \<not> is_space c) r5;
                        group1 = HTTP @ opt_s @ COLON_SLASHES @ tok
                    in if tok = [] then None
                       else Some (AT_LINK @ ws @ group1, group1, rest))))"

text \<open>
  \<open>text.matchAll(URL_REGEX)\<close>: the matches from left to right. After a match the search
  goes on behind it (a match is never empty); where no match starts, it moves on by one
  code unit. Each match is the pair \<open>(match[0], match[1])\<close>.
\<close>

function matchAll :: "jsstring \<Rightarrow> (jsstring \<times> jsstring) list" where
  "matchAll [] = []"
| "matchAll (c # cs) =
     (case URL_REGEX_exec (c # cs) of
        Some (m0, m1, rest) \<Rightarrow> (m0, m1) # matchAll rest
      | None \<Rightarrow> matchAll cs)"
  by pat_completeness auto

lemma stripPrefix_Some: "stripPrefix p s = Some r \<Longrightarrow> s = p @ r"
  by (induction p s rule: stripPrefix.induct) (auto split: if_splits)

lemma stripPrefix_append: "stripPrefix p (p @ r) = Some r"
  by (induction p) auto

lemma URL_REGEX_exec_Some:
  assumes "URL_REGEX_exec s = Some (m0, m1, rest)"
  shows "s = m0 @ rest \<and> (\<exists>ws. m0 = AT_LINK @ ws @ m1 \<and> ws \<noteq> [] \<and> (\<forall>c\<in>set ws. is_space c))
         \<and> prefix HTTP m1"
proof -
  from assms obtain r1 where r1: "stripPrefix AT_LINK s = Some r1"
    by (auto simp: URL_REGEX_exec_def split: option.splits)
  define ws where "ws = takeWhile is_space r1"
  define r2 where "r2 = dropWhile is_space r1"
  from assms r1 have ws: "ws \<noteq> []"
    by (auto simp: URL_REGEX_exec_def Let_def ws_def split: option.splits if_splits)
  from assms r1 ws obtain r3 where r3: "stripPrefix HTTP r2 = Some r3"
    by (auto simp: URL_REGEX_exec_def Let_def ws_def r2_def split: option.splits if_splits)
  define opt_s where "opt_s = (case r3 of c # _ \<Rightarrow> if c = 0x73 then [c] else [] | [] \<Rightarrow> [])"
  define r4 where "r4 = drop (length opt_s) r3"
  from assms r1 ws r3 obtain r5 where r5: "stripPrefix COLON_SLASHES r4 = Some r5"
    by (auto simp: URL_REGEX_exec_def Let_def ws_def r2_def opt_s_def r4_def
        split: option.splits if_splits)
  define tok where "tok = takeWhile (\<lambda>c. \<not> is_space c) r5"
  from assms r1 ws r3 r5
  have res: "m1 = HTTP @ opt_s @ COLON_SLASHES @ tok" "m0 = AT_LINK @ ws @ m1"
    "rest = dropWhile (\<lambda>c. \<not> is_space c) r5"
    by (auto simp: URL_REGEX_exec_def Let_def ws_def r2_def opt_s_def r4_def tok_def
        split: option.splits if_splits)
  have e3: "r3 = opt_s @ r4"
    by (auto simp: opt_s_def r4_def split: list.splits)
  have e1: "r1 = ws @ r2"
    by (simp add: ws_def r2_def)
  have e5: "r5 = tok @ rest"
    by (simp add: tok_def res(3))
  have "s = AT_LINK @ ws @ HTTP @ opt_s @ COLON_SLASHES @ tok @ rest"
    using stripPrefix_Some[OF r1] stripPrefix_Some[OF r3] stripPrefix_Some[OF r5] e1 e3 e5
    by metis
  then have "s = m0 @ rest"
    by (simp add: res(1,2))
  moreover have "\<forall>c\<in>set ws. is_space c"
    unfolding ws_def by (auto dest: set_takeWhileD)
  moreover have "prefix HTTP m1"
    by (simp add: res(1))
  ultimately show ?thesis
    using ws res(2) by blast
qed

lemma URL_REGEX_exec_shorter:
  "URL_REGEX_exec s = Some (m0, m1, rest) \<Longrightarrow> length rest < length s"
  by (drule URL_REGEX_exec_Some) (auto simp: AT_LINK_def js_def)

termination matchAll
  by (relation "measure length") (auto dest: URL_REGEX_exec_shorter)

section \<open>Id derivation\<close>

text \<open>
  \<^verbatim>\<open>function generateId(text) { return text.replace(/\W/g, "_"); }\<close>
\<close>

definition generateId :: "jsstring \<Rightarrow> jsstring" where
  "generateId text = map (\<lambda>c. if is_word c then c else 0x5F) text"


section \<open>Data model\<close>

datatype status = Pending | Fetching | Done | Error

text \<open>
  The metadata object of a response; the content script reads its \<open>title\<close>,
  \<open>description\<close> and \<open>error\<close> properties. A property that is \<open>undefined\<close> is \<open>None\<close>.
\<close>

record metadata =
  title :: "jsstring option"
  description :: "jsstring option"
  md_error :: "jsstring option"

text \<open>
  \<open>interface LinkState\<close>, with the \<open>metadata\<close> and \<open>error\<close> properties that
  \<open>processLink\<close> writes besides the declared ones. The property \<open>context\<close> is the
  field \<open>context_md\<close>.
\<close>

record LinkState =
  url :: jsstring
  status :: status
  context_md :: "jsstring option"
  screenshot :: "jsstring option"
  metadata :: "metadata option"
  error :: "jsstring option"

text \<open>
  The nodes below the surface element: text nodes and elements with their children.
\<close>

datatype node = TextNode jsstring | ElementNode "node list"

text \<open>
  A DOM \<open>Range\<close> as \<open>findRangeForMatch\<close> can leave it: still collapsed at the start of the
  document, as \<open>createRange\<close> made it, or from one offset to another inside the \<open>k\<close>-th
  text node of the surface (counted from 0 in document order): \<open>InTextNode k i j\<close>.
  \<open>IndexSizeError\<close> is the exception of \<open>setEnd\<close> for an offset beyond the end of the node.
\<close>

datatype dom_range = AtDocumentStart | InTextNode nat nat nat

datatype dom_error = IndexSizeError

text \<open>\<open>interface Highlight\<close> (fields \<open>id\<close>, \<open>text\<close>, \<open>range\<close>, \<open>state\<close>).\<close>

record Highlight =
  h_id :: jsstring
  h_text :: jsstring
  h_range :: dom_range
  h_state :: LinkState

text \<open>
  The answer of the content-fetching collaborator:
  \<open>{success, data?: {markdown, metadata, originalData?: {screenshot?}}, error?}\<close>.
  \<open>d_screenshot\<close> is \<open>data.originalData?.screenshot\<close>.
\<close>

record response_data =
  markdown :: jsstring
  d_metadata :: metadata
  d_screenshot :: "jsstring option"

record response =
  success :: bool
  data :: "response_data option"
  resp_error :: "jsstring option"

text \<open>An awaited call either yields its value or throws a fault that carries a message.\<close>

datatype fetch_outcome = Resolved response | Thrown jsstring

datatype trigger = Click | Enter

datatype display = DisplayNone | DisplayFlex

text \<open>The stored value of \<open>local:contextCache\<close>: a \<open>Record<string, LinkState>\<close>.\<close>

type_synonym cache = "(jsstring \<times> LinkState) list"

text \<open>What the processor does to the world around it, in the order it does it.\<close>

datatype event =
    Fetch jsstring
  | Delay nat
  | Render
  | GetValue
  | SetValue cache
  | ShowLoading
  | HideLoading
  | DispatchEnter
  | ClickSubmit
  | ShowErrorMessage
  | PasteImage jsstring

text \<open>
  The environment decides what the collaborators answer. \<open>fetch_outcome_of n u\<close> is the
  outcome of the call of \<open>fetchLinkContext\<close> with URL \<open>u\<close> that comes after \<open>n\<close> earlier
  calls; \<open>storage_fault n\<close> is the message of the fault with which the storage operation
  after \<open>n\<close> earlier ones rejects, if it does.
\<close>

record env =
  fetch_outcome_of :: "nat \<Rightarrow> jsstring \<Rightarrow> fetch_outcome"
  storage_fault :: "nat \<Rightarrow> jsstring option"

text \<open>
  An asynchronous function stops at each \<open>await\<close> and goes on when the awaited promise has
  settled; in between, other listeners and other suspended calls run. A call of
  \<open>processLink\<close> that is suspended is described by the \<open>await\<close> at which it stands, the values
  of its parameters and locals (\<open>id\<close>, \<open>url\<close>, the local \<open>cache\<close> object, \<open>attempt\<close>), and the
  outcome that the awaited operation is going to deliver:
  \<^item> \<open>AfterGetValue\<close>: at \<^verbatim>\<open>await this.contextCache.getValue()\<close>;
  \<^item> \<open>AfterFetch\<close>: at \<^verbatim>\<open>await this.fetchLinkContext(url)\<close>;
  \<^item> \<open>AfterSetValue\<close>: at \<^verbatim>\<open>await this.contextCache.setValue(cache)\<close> of the \<open>try\<close> block;
  \<^item> \<open>AfterLastSetValue\<close>: at the same \<open>await\<close> of the \<open>catch\<close> block, which is reached only
    when \<open>attempt\<close> is 2;
  \<^item> \<open>AfterDelay\<close>: at \<^verbatim>\<open>await delay(1000 * (attempt + 1))\<close>.
\<close>

datatype pending_call =
    AfterGetValue jsstring jsstring "jsstring + cache option"
  | AfterFetch jsstring jsstring cache nat fetch_outcome
  | AfterSetValue jsstring jsstring cache nat "jsstring option"
  | AfterLastSetValue "jsstring option"
  | AfterDelay jsstring jsstring cache nat

text \<open>
  Each call of \<open>processPendingLinks\<close> makes one \<open>Promise.all\<close> over the calls that it starts;
  the calls of the \<open>n\<close>-th such call form \<open>Group n\<close>. When a \<open>Promise.all\<close> has rejected, the
  calls of its group that are still suspended go on, but nothing waits for them any more:
  they are \<open>Orphan\<close>.
\<close>

datatype owner = Group nat | Orphan

text \<open>
  Where a call of \<open>handleSubmitAttempt\<close> is suspended:
  \<^item> \<open>AwaitLinks triggerType g\<close>: at \<^verbatim>\<open>await this.processPendingLinks()\<close>, whose \<open>Promise.all\<close>
    is that of group \<open>g\<close>;
  \<^item> \<open>AwaitPaste triggerType content pos\<close>: inside \<open>injectContext\<close>, at
    \<^verbatim>\<open>await this.pasteImageFromUrl(..)\<close>, with the text \<open>content\<close> that was read before the
    loop and the iterator of \<open>this.highlights.values()\<close> standing before entry number \<open>pos\<close>;
  \<^item> \<open>AwaitSettle\<close>: at \<^verbatim>\<open>await delay(1000)\<close>.
\<close>

datatype submit_wait =
    AwaitLinks trigger nat
  | AwaitPaste trigger jsstring nat
  | AwaitSettle

text \<open>
  The fields of \<open>class LinkSnapProcessor\<close> and the parts of the page and of the extension
  storage that it reads and writes:
  \<^item> \<open>highlights\<close> is a \<open>Map\<close>, \<open>pendingLinks\<close> a \<open>Set\<close>; both iterate in insertion order,
    so they are lists without repeated keys or elements;
  \<^item> \<open>highlightOverlay\<close> tells whether the overlay element is there;
  \<open>inputDiv\<close> is the list of the child nodes of the element \<open>.ProseMirror\<close>, \<open>None\<close> when
    the page has no such element; \<open>submitButton\<close> tells whether the send button is there;
    \<open>loadingIndicator\<close> is the \<open>display\<close> style of the loading element, \<open>None\<close> when the
    page has no such element;
  \<^item> \<open>contextCache\<close> is the stored item, \<open>None\<close> while nothing was ever stored;
  \<^item> \<open>fetchCalls\<close> and \<open>storageOps\<close> count the calls made so far, \<open>trace\<close> lists the effects;
  \<^item> \<open>tasks\<close> are the suspended calls of \<open>processLink\<close>, \<open>nextGroup\<close> the number of calls
    of \<open>processPendingLinks\<close> so far, and \<open>waiting\<close> tells where the call of
    \<open>handleSubmitAttempt\<close> is suspended, \<open>None\<close> when no such call is under way.
\<close>

record processor =
  highlights :: "(jsstring \<times> Highlight) list"
  pendingLinks :: "jsstring list"
  highlightOverlay :: bool
  isProcessing :: bool
  shouldBypassInterception :: bool
  inputDiv :: "node list option"
  submitButton :: bool
  loadingIndicator :: "display option"
  contextCache :: "cache option"
  fetchCalls :: nat
  storageOps :: nat
  trace :: "event list"
  tasks :: "(owner \<times> pending_call) list"
  nextGroup :: nat
  waiting :: "submit_wait option"

subsection \<open>Map, Set and object operations\<close>

definition Map_has :: "'k \<Rightarrow> ('k \<times> 'v) list \<Rightarrow> bool" where
  "Map_has k m \<longleftrightarrow> k \<in> set (map fst m)"

definition Map_get :: "'k \<Rightarrow> ('k \<times> 'v) list \<Rightarrow> 'v option" where
  "Map_get k m = map_of m k"

fun Map_set :: "'k \<Rightarrow> 'v \<Rightarrow> ('k \<times> 'v) list \<Rightarrow> ('k \<times> 'v) list" where
  "Map_set k v [] = [(k, v)]"
| "Map_set k v ((k', v') # m) = (if k' = k then (k, v) # m else (k', v') # Map_set k v m)"

definition Map_delete :: "'k \<Rightarrow> ('k \<times> 'v) list \<Rightarrow> ('k \<times> 'v) list" where
  "Map_delete k m = filter (\<lambda>(k', v). k' \<noteq> k) m"

definition Set_add :: "'a \<Rightarrow> 'a list \<Rightarrow> 'a list" where
  "Set_add x xs = (if x \<in> set xs then xs else xs @ [x])"

definition Set_delete :: "'a \<Rightarrow> 'a list \<Rightarrow> 'a list" where
  "Set_delete x xs = filter (\<lambda>y. y \<noteq> x) xs"

section \<open>Rendering\<close>

text \<open>
  \<open>renderHighlights\<close> redraws the overlay from the highlights; it changes nothing that the
  processor reads later, so only the fact that it ran is kept.
\<close>

definition renderHighlights :: "processor \<Rightarrow> processor" where
  "renderHighlights st = (if \<not> highlightOverlay st then st else st\<lparr>trace := trace st @ [Render]\<rparr>)"

section \<open>Reconciliation\<close>

text \<open>\<open>Node.textContent\<close>: the texts of the text nodes below, in document order.\<close>

fun textContent :: "node \<Rightarrow> jsstring"
  and textContents :: "node list \<Rightarrow> jsstring" where
  "textContent (TextNode s) = s"
| "textContent (ElementNode children) = textContents children"
| "textContents [] = []"
| "textContents (n # ns) = textContent n @ textContents ns"

text \<open>
  The walk of \<open>findTextNode\<close> over the nodes. While it goes on it carries \<open>currentIndex\<close>
  and the number of text nodes passed so far. It stops at the first text node that reaches
  beyond \<open>index\<close>: there \<open>range.setStart(node, index - currentIndex)\<close> is inside the node,
  and \<open>range.setEnd(node, index - currentIndex + searchText.length)\<close> throws
  \<open>IndexSizeError\<close> when that offset is greater than the length of the node, that is when
  the occurrence goes on into the next text node. Nothing catches the exception.
\<close>

datatype walk = Searching nat nat | Located dom_range | Threw dom_error

fun findTextNode :: "nat \<Rightarrow> nat \<Rightarrow> node \<Rightarrow> nat \<Rightarrow> nat \<Rightarrow> walk"
  and findInChildren :: "nat \<Rightarrow> nat \<Rightarrow> node list \<Rightarrow> nat \<Rightarrow> nat \<Rightarrow> walk" where
  "findTextNode index len (TextNode nodeText) currentIndex k =
     (if currentIndex + length nodeText > index then
        (if index - currentIndex + len > length nodeText then Threw IndexSizeError
         else Located (InTextNode k (index - currentIndex) (index - currentIndex + len)))
      else Searching (currentIndex + length nodeText) (Suc k))"
| "findTextNode index len (ElementNode children) currentIndex k =
     findInChildren index len children currentIndex k"
| "findInChildren index len [] currentIndex k = Searching currentIndex k"
| "findInChildren index len (childNode # rest) currentIndex k =
     (case findTextNode index len childNode currentIndex k of
        Searching currentIndex' k' \<Rightarrow> findInChildren index len rest currentIndex' k'
      | Located rng \<Rightarrow> Located rng
      | Threw err \<Rightarrow> Threw err)"

text \<open>
  \<open>findRangeForMatch\<close> on the surface with the child nodes \<open>element\<close>: \<open>null\<close> exactly when
  \<open>indexOf\<close> finds nothing; otherwise the range that the walk has set, or its exception.
\<close>

definition findRangeForMatch :: "node list \<Rightarrow> jsstring \<Rightarrow> dom_error + dom_range option" where
  "findRangeForMatch element searchText =
     (case indexOf (textContents element) searchText of
        None \<Rightarrow> Inr None
      | Some index \<Rightarrow>
          (case findInChildren index (length searchText) element 0 0 of
             Searching _ _ \<Rightarrow> Inr (Some AtDocumentStart)
           | Located rng \<Rightarrow> Inr (Some rng)
           | Threw err \<Rightarrow> Inl err))"

text \<open>
  The body of the first loop of \<open>updateHighlights\<close>, for one match; the result carries the
  exception, if one was thrown.
\<close>

definition addMatch ::
  "node list \<Rightarrow> jsstring \<times> jsstring \<Rightarrow> processor \<Rightarrow> dom_error option \<times> processor" where
  "addMatch element m st =
     (let ident = generateId (fst m) in
      if Map_has ident (highlights st) then (None, st)
      else (case findRangeForMatch element (fst m) of
          Inl err \<Rightarrow> (Some err, st)
        | Inr None \<Rightarrow> (None, st)
        | Inr (Some rng) \<Rightarrow>
            (None,
             st\<lparr>highlights := Map_set ident
                  \<lparr>h_id = ident, h_text = fst m, h_range = rng,
                   h_state = \<lparr>url = snd m, status = Pending, context_md = None,
                              screenshot = None, metadata = None, error = None\<rparr>\<rparr>
                  (highlights st),
                pendingLinks := Set_add (snd m) (pendingLinks st)\<rparr>)))"

fun addMatches ::
  "node list \<Rightarrow> (jsstring \<times> jsstring) list \<Rightarrow> processor \<Rightarrow> dom_error option \<times> processor" where
  "addMatches element [] st = (None, st)"
| "addMatches element (m # ms) st =
     (case addMatch element m st of
        (Some err, st') \<Rightarrow> (Some err, st')
      | (None, st') \<Rightarrow> addMatches element ms st')"

text \<open>
  The iterator of a suspended \<open>injectContext\<close> is live: when an entry before its position
  is deleted from the map, the entries after it move up and the iterator with them.
\<close>

definition Map_index :: "'k \<Rightarrow> ('k \<times> 'v) list \<Rightarrow> nat" where
  "Map_index k m = length (takeWhile (\<lambda>e. fst e \<noteq> k) m)"

definition iteratorAfterDelete :: "jsstring \<Rightarrow> processor \<Rightarrow> submit_wait option" where
  "iteratorAfterDelete ident st =
     (case waiting st of
        Some (AwaitPaste triggerType content pos) \<Rightarrow>
          Some (AwaitPaste triggerType content
                  (if Map_index ident (highlights st) < pos then pos - 1 else pos))
      | w \<Rightarrow> w)"

text \<open>
  The second loop walks the entries of the map and deletes the ones whose id is not in
  \<open>currentIds\<close>; deleting the entry under the iterator does not disturb the walk.
\<close>

fun removeStale :: "jsstring list \<Rightarrow> (jsstring \<times> Highlight) list \<Rightarrow> processor \<Rightarrow> processor" where
  "removeStale currentIds [] st = st"
| "removeStale currentIds ((ident, highlight) # entries) st =
     removeStale currentIds entries
       (if ident \<notin> set currentIds
        then st\<lparr>highlights := Map_delete ident (highlights st),
                pendingLinks := Set_delete (url (h_state highlight)) (pendingLinks st),
                waiting := iteratorAfterDelete ident st\<rparr>
        else st)"

text \<open>
  \<open>updateHighlights\<close>. An exception of the first loop ends the call there: the highlights
  made before it stay, nothing is removed and nothing is rendered. The function is
  \<open>async\<close> and has no \<open>await\<close>, so it runs in one piece and the exception becomes the
  rejection of a promise that nobody looks at.
\<close>

definition updateHighlights :: "processor \<Rightarrow> dom_error option \<times> processor" where
  "updateHighlights st =
     (case inputDiv st of
        None \<Rightarrow> (None, st)
      | Some element \<Rightarrow>
          if \<not> highlightOverlay st then (None, st)
          else
            let matches = matchAll (textContents element);
                currentIds = map (\<lambda>m. generateId (fst m)) matches
            in (case addMatches element matches st of
                  (Some err, st1) \<Rightarrow> (Some err, st1)
                | (None, st1) \<Rightarrow>
                    (None, renderHighlights (removeStale currentIds (highlights st1) st1))))"


section \<open>The collaborators\<close>

text \<open>
  \<open>contextCache.getValue()\<close> and \<open>contextCache.setValue(cache)\<close>: each is one storage
  operation, which the environment may reject; a rejected write stores nothing.
\<close>

definition getValue :: "env \<Rightarrow> processor \<Rightarrow> (jsstring + cache option) \<times> processor" where
  "getValue \<E> st =
     (let st' = st\<lparr>storageOps := Suc (storageOps st), trace := trace st @ [GetValue]\<rparr> in
      case storage_fault \<E> (storageOps st) of
        Some msg \<Rightarrow> (Inl msg, st')
      | None \<Rightarrow> (Inr (contextCache st), st'))"

definition setValue :: "env \<Rightarrow> cache \<Rightarrow> processor \<Rightarrow> jsstring option \<times> processor" where
  "setValue \<E> c st =
     (let st' = st\<lparr>storageOps := Suc (storageOps st), trace := trace st @ [SetValue c]\<rparr> in
      case storage_fault \<E> (storageOps st) of
        Some msg \<Rightarrow> (Some msg, st')
      | None \<Rightarrow> (None, st'\<lparr>contextCache := Some c\<rparr>))"

definition fetchLinkContext :: "env \<Rightarrow> jsstring \<Rightarrow> processor \<Rightarrow> fetch_outcome \<times> processor" where
  "fetchLinkContext \<E> u st =
     (fetch_outcome_of \<E> (fetchCalls st) u,
      st\<lparr>fetchCalls := Suc (fetchCalls st), trace := trace st @ [Fetch u]\<rparr>)"

definition delay :: "nat \<Rightarrow> processor \<Rightarrow> processor" where
  "delay ms st = st\<lparr>trace := trace st @ [Delay ms]\<rparr>"

section \<open>The fetch orchestrator\<close>

definition updateHighlightState :: "jsstring \<Rightarrow> LinkState \<Rightarrow> processor \<Rightarrow> processor" where
  "updateHighlightState ident s st =
     (case Map_get ident (highlights st) of
        None \<Rightarrow> st
      | Some highlight \<Rightarrow>
          renderHighlights
            (st\<lparr>highlights := Map_set ident (highlight\<lparr>h_state := s\<rparr>) (highlights st)\<rparr>))"

text \<open>
  A JavaScript string is truthy when it is not empty; \<open>a || b\<close> on strings that may be
  \<open>undefined\<close> is \<open>a\<close> when \<open>a\<close> is a non-empty string, else \<open>b\<close>.
\<close>

definition truthy :: "jsstring option \<Rightarrow> bool" where
  "truthy x \<longleftrightarrow> (case x of None \<Rightarrow> False | Some s \<Rightarrow> s \<noteq> [])"

text \<open>
  The message of \<^verbatim>\<open>new Error(response.data?.metadata?.error || "Unknown error")\<close>.
\<close>

definition thrownMessage :: "response \<Rightarrow> jsstring" where
  "thrownMessage r =
     (case data r of
        None \<Rightarrow> js ''Unknown error''
      | Some d \<Rightarrow>
          if truthy (md_error (d_metadata d)) then the (md_error (d_metadata d))
          else js ''Unknown error'')"

text \<open>The state that the successful branch builds from the data of a response.\<close>

definition doneState :: "jsstring \<Rightarrow> response_data \<Rightarrow> LinkState" where
  "doneState u d =
     \<lparr>url = u, status = Done, context_md = Some (markdown d),
      screenshot = (if truthy (d_screenshot d) then d_screenshot d else None),
      metadata = Some (d_metadata d), error = None\<rparr>"

definition errorState :: "jsstring \<Rightarrow> jsstring \<Rightarrow> LinkState" where
  "errorState u msg =
     \<lparr>url = u, status = Error, context_md = None, screenshot = None, metadata = None,
      error = Some msg\<rparr>"

text \<open>
  How one pass through the body of the retry loop ends: the function returns, a fault
  leaves the function, or the loop goes on (with the local \<open>cache\<close> object as it is then).
\<close>

datatype attempt_end =
    Return processor
  | Escape jsstring processor
  | Continue cache processor

text \<open>The \<open>catch\<close> block of the loop, entered with the message of the caught fault.\<close>

definition catchBlock ::
  "env \<Rightarrow> jsstring \<Rightarrow> jsstring \<Rightarrow> cache \<Rightarrow> nat \<Rightarrow> jsstring \<Rightarrow> processor \<Rightarrow> attempt_end" where
  "catchBlock \<E> ident u c attempt msg st =
     (if attempt = 2 then
        let es = errorState u msg;
            c' = Map_set u es c;
            st1 = updateHighlightState ident es st;
            (r, st2) = setValue \<E> c' st1
        in (case r of None \<Rightarrow> Continue c' st2 | Some msg' \<Rightarrow> Escape msg' st2)
      else Continue c (delay (1000 * (attempt + 1)) st))"

text \<open>The \<open>try\<close> block with its \<open>catch\<close>: one attempt.\<close>

definition attemptBody ::
  "env \<Rightarrow> jsstring \<Rightarrow> jsstring \<Rightarrow> cache \<Rightarrow> nat \<Rightarrow> processor \<Rightarrow> attempt_end" where
  "attemptBody \<E> ident u c attempt st =
     (let (outcome, st1) = fetchLinkContext \<E> u st in
      case outcome of
        Thrown msg \<Rightarrow> catchBlock \<E> ident u c attempt msg st1
      | Resolved r \<Rightarrow>
          (case (if success r then data r else None) of
             Some d \<Rightarrow>
               let newState = doneState u d;
                   c' = Map_set u newState c;
                   st2 = updateHighlightState ident newState st1;
                   (w, st3) = setValue \<E> c' st2
               in (case w of
                     None \<Rightarrow> Return st3
                   | Some msg \<Rightarrow> catchBlock \<E> ident u c' attempt msg st3)
           | None \<Rightarrow> catchBlock \<E> ident u c attempt (thrownMessage r) st1))"

text \<open>\<^verbatim>\<open>for (let attempt = 0; attempt < 3; attempt++)\<close>. The result carries the fault, if one
  leaves the function.\<close>

function retryLoop ::
  "env \<Rightarrow> jsstring \<Rightarrow> jsstring \<Rightarrow> cache \<Rightarrow> nat \<Rightarrow> processor \<Rightarrow> jsstring option \<times> processor" where
  "retryLoop \<E> ident u c attempt st =
     (if attempt < 3 then
        (case attemptBody \<E> ident u c attempt st of
           Return st' \<Rightarrow> (None, st')
         | Escape msg st' \<Rightarrow> (Some msg, st')
         | Continue c' st' \<Rightarrow> retryLoop \<E> ident u c' (attempt + 1) st')
      else (None, st))"
  by pat_completeness auto
termination
  by (relation "measure (\<lambda>(\<E>, ident, u, c, attempt, st). 3 - attempt)") auto

declare retryLoop.simps [simp del]

definition processLink ::
  "env \<Rightarrow> jsstring \<Rightarrow> jsstring \<Rightarrow> processor \<Rightarrow> jsstring option \<times> processor" where
  "processLink \<E> ident u st =
     (let (g, st1) = getValue \<E> st in
      case g of
        Inl msg \<Rightarrow> (Some msg, st1)
      | Inr stored \<Rightarrow>
          let c = (case stored of None \<Rightarrow> [] | Some c \<Rightarrow> c) in
          (case Map_get u c of
             Some cached \<Rightarrow> (None, updateHighlightState ident cached st1)
           | None \<Rightarrow> retryLoop \<E> ident u c 0 st1))"

section \<open>The fetch orchestrator, await by await\<close>

text \<open>
  The definitions above follow a call of \<open>processLink\<close> from its start to its end, as it
  runs when nothing else happens in between. On the page the call stops at each \<open>await\<close>.
  The awaited operation is started when it is called: the storage reads or writes the item
  then, the collaborator is asked then, and the outcome comes back when the call goes on.
  \<open>resume\<close> takes a suspended call from its \<open>await\<close> to the next one, or to its end; the
  result \<open>Settled r\<close> carries the fault \<open>r\<close> with which the promise of the call rejects, if it
  does.
\<close>

datatype call_step = Suspended pending_call | Settled "jsstring option"

text \<open>The head of the \<open>for\<close> loop and the \<open>try\<close> block up to its first \<open>await\<close>.\<close>

definition beginAttempt ::
  "env \<Rightarrow> jsstring \<Rightarrow> jsstring \<Rightarrow> cache \<Rightarrow> nat \<Rightarrow> processor \<Rightarrow> call_step \<times> processor" where
  "beginAttempt \<E> ident u c attempt st =
     (if attempt < 3 then
        let (outcome, st1) = fetchLinkContext \<E> u st
        in (Suspended (AfterFetch ident u c attempt outcome), st1)
      else (Settled None, st))"

text \<open>The \<open>catch\<close> block up to its \<open>await\<close>.\<close>

definition enterCatch ::
  "env \<Rightarrow> jsstring \<Rightarrow> jsstring \<Rightarrow> cache \<Rightarrow> nat \<Rightarrow> jsstring \<Rightarrow> processor
    \<Rightarrow> call_step \<times> processor" where
  "enterCatch \<E> ident u c attempt msg st =
     (if attempt = 2 then
        let es = errorState u msg;
            c' = Map_set u es c;
            st1 = updateHighlightState ident es st;
            (r, st2) = setValue \<E> c' st1
        in (Suspended (AfterLastSetValue r), st2)
      else (Suspended (AfterDelay ident u c attempt), delay (1000 * (attempt + 1)) st))"

fun resume :: "env \<Rightarrow> pending_call \<Rightarrow> processor \<Rightarrow> call_step \<times> processor" where
  "resume \<E> (AfterGetValue ident u g) st =
     (case g of
        Inl msg \<Rightarrow> (Settled (Some msg), st)
      | Inr stored \<Rightarrow>
          let c = (case stored of None \<Rightarrow> [] | Some c \<Rightarrow> c) in
          (case Map_get u c of
             Some cached \<Rightarrow> (Settled None, updateHighlightState ident cached st)
           | None \<Rightarrow> beginAttempt \<E> ident u c 0 st))"
| "resume \<E> (AfterFetch ident u c attempt outcome) st =
     (case outcome of
        Thrown msg \<Rightarrow> enterCatch \<E> ident u c attempt msg st
      | Resolved r \<Rightarrow>
          (case (if success r then data r else None) of
             Some d \<Rightarrow>
               let newState = doneState u d;
                   c' = Map_set u newState c;
                   st2 = updateHighlightState ident newState st;
                   (w, st3) = setValue \<E> c' st2
               in (Suspended (AfterSetValue ident u c' attempt w), st3)
           | None \<Rightarrow> enterCatch \<E> ident u c attempt (thrownMessage r) st))"
| "resume \<E> (AfterSetValue ident u c attempt w) st =
     (case w of
        None \<Rightarrow> (Settled None, st)
      | Some msg \<Rightarrow> enterCatch \<E> ident u c attempt msg st)"
| "resume \<E> (AfterLastSetValue r) st = (Settled r, st)"
| "resume \<E> (AfterDelay ident u c attempt) st = beginAttempt \<E> ident u c (attempt + 1) st"

text \<open>The call of \<open>processLink\<close> up to its first \<open>await\<close>.\<close>

definition startProcessLink ::
  "env \<Rightarrow> jsstring \<Rightarrow> jsstring \<Rightarrow> processor \<Rightarrow> pending_call \<times> processor" where
  "startProcessLink \<E> ident u st =
     (let (g, st1) = getValue \<E> st in (AfterGetValue ident u g, st1))"

text \<open>
  A suspended call goes on only a bounded number of times: \<open>weight\<close> bounds the number
  of \<open>await\<close>s that it can still reach.
\<close>

fun weight :: "pending_call \<Rightarrow> nat" where
  "weight (AfterGetValue ident u g) = 13"
| "weight (AfterFetch ident u c attempt outcome) = 3 * (3 - attempt) + 3"
| "weight (AfterSetValue ident u c attempt w) = 3 * (3 - attempt) + 2"
| "weight (AfterDelay ident u c attempt) = 3 * (3 - attempt) + 1"
| "weight (AfterLastSetValue r) = 1"

section \<open>Dispatching the pending links\<close>

definition LINK_PREFIX :: jsstring where
  "LINK_PREFIX = js ''@link ''"







section \<open>The context injector\<close>

definition NL :: jschar where
  "NL = 0xA"

text \<open>
  The text of the paragraph that \<open>injectContext\<close> appends for a state:
  \<^verbatim>\<open>`\n\nContext for ${url}:\n${context}`\<close>, and before it \<^verbatim>\<open>`\n\n# ${title}\n\n`\<close> when the
  metadata has a truthy title that is not its description. \<open>template x\<close> is the text
  that a template literal makes of \<open>x\<close>.
\<close>

definition template :: "jsstring option \<Rightarrow> jsstring" where
  "template x = (case x of None \<Rightarrow> js ''undefined'' | Some s \<Rightarrow> s)"

definition baseText :: "LinkState \<Rightarrow> jsstring" where
  "baseText s =
     [NL, NL] @ js ''Context for '' @ url s @ js '':'' @ [NL] @ template (context_md s)"

definition contextText :: "LinkState \<Rightarrow> jsstring" where
  "contextText s =
     (case metadata s of
        None \<Rightarrow> baseText s
      | Some md \<Rightarrow>
          if truthy (title md) \<and> title md \<noteq> description md
          then [NL, NL] @ js ''# '' @ template (title md) @ [NL, NL] @ baseText s
          else baseText s)"

text \<open>
  \<^verbatim>\<open>const p = document.createElement("p"); p.textContent = contextText; inputDiv.appendChild(p)\<close>:
  the surface gets a new last child, an element that holds one text node.
\<close>

definition appendParagraph :: "jsstring \<Rightarrow> processor \<Rightarrow> processor" where
  "appendParagraph t st =
     st\<lparr>inputDiv := map_option (\<lambda>element. element @ [ElementNode [TextNode t]]) (inputDiv st)\<rparr>"

text \<open>
  The test of the loop of \<open>injectContext\<close> for one highlight; \<open>content\<close> is the text of the
  surface as it was read before the loop.
\<close>

definition injects :: "jsstring \<Rightarrow> LinkState \<Rightarrow> bool" where
  "injects content s \<longleftrightarrow>
     status s = Done \<and> truthy (context_md s) \<and> includes_js content (LINK_PREFIX @ url s)"

text \<open>
  The body of the loop for one highlight. The screenshot is handed to \<open>pasteImageFromUrl\<close>,
  which works on the body of the page and catches its own faults.
\<close>

definition injectOne :: "jsstring \<Rightarrow> Highlight \<Rightarrow> bool \<times> processor \<Rightarrow> bool \<times> processor" where
  "injectOne content highlight acc =
     (let (injectedAny, st) = acc;
          s = h_state highlight
      in if injects content s then
           let st1 = appendParagraph (contextText s) st;
               st2 = (if truthy (screenshot s)
                      then st1\<lparr>trace := trace st1 @ [PasteImage (the (screenshot s))]\<rparr>
                      else st1)
           in (True, st2)
         else (injectedAny, st))"

fun injectEach :: "jsstring \<Rightarrow> Highlight list \<Rightarrow> bool \<times> processor \<Rightarrow> bool \<times> processor" where
  "injectEach content [] acc = acc"
| "injectEach content (highlight # rest) acc = injectEach content rest (injectOne content highlight acc)"

text \<open>\<open>injectContext\<close> from its start to its end, as it runs when nothing else happens in
  between.\<close>

definition injectContext :: "processor \<Rightarrow> bool \<times> processor" where
  "injectContext st =
     (case inputDiv st of
        None \<Rightarrow> (False, st)
      | Some element \<Rightarrow>
          injectEach (textContents element) (map snd (highlights st)) (False, st))"






section \<open>The submission guard\<close>













section \<open>Suspended calls going on\<close>






section \<open>The events that drive the processor\<close>




text \<open>
  The processor when \<open>init\<close> has set up the overlay and the loading indicator, on a page
  that has the surface with the child nodes \<open>element\<close> and the send button.
\<close>

definition initial :: "node list \<Rightarrow> processor" where
  "initial element =
     \<lparr>highlights = [], pendingLinks = [], highlightOverlay = True, isProcessing = False,
      shouldBypassInterception = False, inputDiv = Some element, submitButton = True,
      loadingIndicator = Some DisplayNone, contextCache = None, fetchCalls = 0,
      storageOps = 0, trace = [], tasks = [], nextGroup = 0, waiting = None\<rparr>"

text \<open>A surface that holds one paragraph with one text node.\<close>

definition oneParagraph :: "jsstring \<Rightarrow> node list" where
  "oneParagraph t = [ElementNode [TextNode t]]"


section \<open>Reading a trace; example inputs\<close>

text \<open>The URLs handed to the collaborator and the waits, each in the order of the trace.\<close>

definition fetches :: "event list \<Rightarrow> jsstring list" where
  "fetches evs = concat (map (\<lambda>e. case e of Fetch u \<Rightarrow> [u] | _ \<Rightarrow> []) evs)"

definition delays :: "event list \<Rightarrow> nat list" where
  "delays evs = concat (map (\<lambda>e. case e of Delay ms \<Rightarrow> [ms] | _ \<Rightarrow> []) evs)"

text \<open>\<^verbatim>\<open>(await this.contextCache.getValue()) ?? {}\<close> when the read succeeds.\<close>

definition cacheOf :: "processor \<Rightarrow> cache" where
  "cacheOf st = (case contextCache st of None \<Rightarrow> [] | Some c \<Rightarrow> c)"

definition exampleUrl :: jsstring where
  "exampleUrl = js ''https://example.com''"

definition exampleId :: jsstring where
  "exampleId = js ''_link_https___example_com''"

definition exampleText :: jsstring where
  "exampleText = js ''check this @link https://example.com out''"

definition exampleData :: response_data where
  "exampleData =
     \<lparr>markdown = js ''Example body'',
      d_metadata = \<lparr>title = Some (js ''Example Domain''), description = None,
                    md_error = None\<rparr>,
      d_screenshot = None\<rparr>"

text \<open>An environment in which every fetch succeeds and the storage never fails.\<close>

definition reliable :: env where
  "reliable =
     \<lparr>fetch_outcome_of =
        (\<lambda>n u. Resolved \<lparr>success = True, data = Some exampleData, resp_error = None\<rparr>),
      storage_fault = (\<lambda>n. None)\<rparr>"

text \<open>
  The processor after one reconciliation of \<open>exampleText\<close>, in a session whose durable
  cache already holds the \<open>done\<close> state of \<open>exampleUrl\<close>.
\<close>

definition cachedExample :: processor where
  "cachedExample =
     (snd (updateHighlights (initial (oneParagraph exampleText))))
       \<lparr>contextCache := Some [(exampleUrl, doneState exampleUrl exampleData)]\<rparr>"


section \<open>Basic facts\<close>

lemma Map_get_Map_set:
  "Map_get k (Map_set k' v m) = (if k = k' then Some v else Map_get k m)"
  by (induction m) (auto simp: Map_get_def)

lemma keys_Map_set:
  "Map_get k m \<noteq> None \<Longrightarrow> map fst (Map_set k v m) = map fst m"
  by (induction m) (auto simp: Map_get_def)

lemma renderHighlights_fields [simp]:
  "highlights (renderHighlights st) = highlights st"
  "pendingLinks (renderHighlights st) = pendingLinks st"
  "contextCache (renderHighlights st) = contextCache st"
  "fetchCalls (renderHighlights st) = fetchCalls st"
  "storageOps (renderHighlights st) = storageOps st"
  "inputDiv (renderHighlights st) = inputDiv st"
  "highlightOverlay (renderHighlights st) = highlightOverlay st"
  "isProcessing (renderHighlights st) = isProcessing st"
  "shouldBypassInterception (renderHighlights st) = shouldBypassInterception st"
  "loadingIndicator (renderHighlights st) = loadingIndicator st"
  "submitButton (renderHighlights st) = submitButton st"
  "tasks (renderHighlights st) = tasks st"
  "nextGroup (renderHighlights st) = nextGroup st"
  "waiting (renderHighlights st) = waiting st"
  "trace (renderHighlights st) = trace st @ (if highlightOverlay st then [Render] else [])"
  by (simp_all add: renderHighlights_def)

lemma updateHighlightState_fields [simp]:
  "pendingLinks (updateHighlightState i s st) = pendingLinks st"
  "contextCache (updateHighlightState i s st) = contextCache st"
  "fetchCalls (updateHighlightState i s st) = fetchCalls st"
  "storageOps (updateHighlightState i s st) = storageOps st"
  "inputDiv (updateHighlightState i s st) = inputDiv st"
  "highlightOverlay (updateHighlightState i s st) = highlightOverlay st"
  "isProcessing (updateHighlightState i s st) = isProcessing st"
  "shouldBypassInterception (updateHighlightState i s st) = shouldBypassInterception st"
  "loadingIndicator (updateHighlightState i s st) = loadingIndicator st"
  "submitButton (updateHighlightState i s st) = submitButton st"
  "tasks (updateHighlightState i s st) = tasks st"
  "nextGroup (updateHighlightState i s st) = nextGroup st"
  "waiting (updateHighlightState i s st) = waiting st"
  by (simp_all add: updateHighlightState_def split: option.splits)

lemma updateHighlightState_present:
  "Map_get i (highlights st) = Some h \<Longrightarrow>
   highlights (updateHighlightState i s st) = Map_set i (h\<lparr>h_state := s\<rparr>) (highlights st) \<and>
   trace (updateHighlightState i s st) = trace st @ (if highlightOverlay st then [Render] else [])"
  by (simp add: updateHighlightState_def)

lemma updateHighlightState_absent:
  "Map_get i (highlights st) = None \<Longrightarrow> updateHighlightState i s st = st"
  by (simp add: updateHighlightState_def)

section \<open>A cache hit needs no network\<close>

text \<open>
  Claim C3. When the read of the durable cache succeeds and the cache has an entry for the
  URL, \<open>processLink\<close> returns normally, makes no call to the content-fetching
  collaborator and waits for no retry, leaves the cache as it is, and the highlight with
  the given id, if there is one, gets the cached state. So a new highlight for a URL that
  is cached as \<open>done\<close> becomes \<open>done\<close> without any network call.
\<close>

theorem processLink_cache_hit:
  assumes "storage_fault \<E> (storageOps st) = None"
    and "contextCache st = Some c"
    and "Map_get u c = Some cached"
  shows "fst (processLink \<E> ident u st) = None
    \<and> fetchCalls (snd (processLink \<E> ident u st)) = fetchCalls st
    \<and> fetches (trace (snd (processLink \<E> ident u st))) = fetches (trace st)
    \<and> delays (trace (snd (processLink \<E> ident u st))) = delays (trace st)
    \<and> contextCache (snd (processLink \<E> ident u st)) = contextCache st
    \<and> Map_get ident (highlights (snd (processLink \<E> ident u st)))
        = map_option (\<lambda>h. h\<lparr>h_state := cached\<rparr>) (Map_get ident (highlights st))"
proof -
  define st1 where "st1 = st\<lparr>storageOps := Suc (storageOps st), trace := trace st @ [GetValue]\<rparr>"
  have pl: "processLink \<E> ident u st = (None, updateHighlightState ident cached st1)"
    using assms by (simp add: processLink_def getValue_def Let_def st1_def)
  show ?thesis
  proof (cases "Map_get ident (highlights st)")
    case None
    then have "Map_get ident (highlights st1) = None" by (simp add: st1_def)
    then have "updateHighlightState ident cached st1 = st1"
      by (rule updateHighlightState_absent)
    with pl None show ?thesis
      by (simp add: st1_def fetches_def delays_def)
  next
    case (Some h)
    then have "Map_get ident (highlights st1) = Some h" by (simp add: st1_def)
    from updateHighlightState_present[OF this, of cached] pl Some show ?thesis
      by (simp add: st1_def fetches_def delays_def Map_get_Map_set)
  qed
qed

theorem processLink_cache_hit_witness:
  "fst (processLink reliable exampleId exampleUrl cachedExample) = None
   \<and> fetches (trace (snd (processLink reliable exampleId exampleUrl cachedExample))) = []
   \<and> map_option (\<lambda>h. status (h_state h))
        (Map_get exampleId (highlights (snd (processLink reliable exampleId exampleUrl cachedExample))))
      = Some Done"
proof -
  have h1: "storage_fault reliable (storageOps cachedExample) = None"
    by code_simp
  have h2: "contextCache cachedExample = Some [(exampleUrl, doneState exampleUrl exampleData)]"
    by (simp add: cachedExample_def)
  have h3: "Map_get exampleUrl [(exampleUrl, doneState exampleUrl exampleData)]
      = Some (doneState exampleUrl exampleData)"
    by (simp add: Map_get_def)
  have tr: "fetches (trace cachedExample) = []"
    by code_simp
  have hl: "map_option (\<lambda>h. status (h_state h)) (Map_get exampleId (highlights cachedExample))
      = Some Pending"
    by code_simp
  have "status (doneState exampleUrl exampleData) = Done"
    by (simp add: doneState_def)
  with processLink_cache_hit[OF h1 h2 h3, of exampleId] tr hl show ?thesis
    by (auto simp: option.map_comp comp_def)
qed

section \<open>Three failed attempts\<close>

text \<open>
  An attempt fails when the call throws, when the response reports no success, or when a
  successful response carries no data. \<open>failureMessage\<close> is the message of the fault that
  the \<open>catch\<close> block then sees.
\<close>

definition failed :: "fetch_outcome \<Rightarrow> bool" where
  "failed oc = (case oc of Thrown _ \<Rightarrow> True | Resolved r \<Rightarrow> \<not> success r \<or> data r = None)"

definition failureMessage :: "fetch_outcome \<Rightarrow> jsstring" where
  "failureMessage oc = (case oc of Thrown msg \<Rightarrow> msg | Resolved r \<Rightarrow> thrownMessage r)"

lemma attemptBody_failed:
  assumes "failed (fetch_outcome_of \<E> (fetchCalls st) u)"
  shows "attemptBody \<E> ident u c attempt st =
    catchBlock \<E> ident u c attempt (failureMessage (fetch_outcome_of \<E> (fetchCalls st) u))
      (st\<lparr>fetchCalls := Suc (fetchCalls st), trace := trace st @ [Fetch u]\<rparr>)"
  using assms
  by (auto simp: attemptBody_def fetchLinkContext_def failed_def failureMessage_def
      split: fetch_outcome.splits option.splits)

lemma catchBlock_retry:
  "attempt \<noteq> 2 \<Longrightarrow>
   catchBlock \<E> ident u c attempt msg st = Continue c (st\<lparr>trace := trace st @ [Delay (1000 * (attempt + 1))]\<rparr>)"
  by (simp add: catchBlock_def delay_def)

lemma catchBlock_final:
  assumes "storage_fault \<E> (storageOps st) = None"
  shows "catchBlock \<E> ident u c 2 msg st =
    Continue (Map_set u (errorState u msg) c)
      ((updateHighlightState ident (errorState u msg) st)
         \<lparr>storageOps := Suc (storageOps st),
          trace := trace (updateHighlightState ident (errorState u msg) st)
                     @ [SetValue (Map_set u (errorState u msg) c)],
          contextCache := Some (Map_set u (errorState u msg) c)\<rparr>)"
  using assms by (simp add: catchBlock_def setValue_def Let_def)

lemma retryLoop_step:
  "attempt < 3 \<Longrightarrow> attemptBody \<E> ident u c attempt st = Continue c' st' \<Longrightarrow>
   retryLoop \<E> ident u c attempt st = retryLoop \<E> ident u c' (attempt + 1) st'"
  by (subst retryLoop.simps) simp

lemma retryLoop_end: "retryLoop \<E> ident u c 3 st = (None, st)"
  by (subst retryLoop.simps) simp


text \<open>Environments for the examples: the first answers the three calls with a refusal,
  with a success that has no data and with a thrown fault; the second refuses every call
  in the way the background script does when it has no API key.\<close>

definition failing3 :: env where
  "failing3 =
     \<lparr>fetch_outcome_of =
        (\<lambda>n u. if n = 0 then Resolved \<lparr>success = False, data = None,
                                        resp_error = Some (js ''Scraping failed'')\<rparr>
               else if n = 1 then Resolved \<lparr>success = True, data = None, resp_error = None\<rparr>
               else Thrown (js ''Extension context invalidated.'')),
      storage_fault = (\<lambda>n. None)\<rparr>"

definition refusing :: env where
  "refusing =
     \<lparr>fetch_outcome_of =
        (\<lambda>n u. Resolved \<lparr>success = False, data = None,
                           resp_error = Some (js ''Firecrawl API key not found'')\<rparr>),
      storage_fault = (\<lambda>n. None)\<rparr>"

text \<open>The processor after one reconciliation of \<open>exampleText\<close>, with nothing stored.\<close>

definition pendingExample :: processor where
  "pendingExample = snd (updateHighlights (initial (oneParagraph exampleText)))"

text \<open>
  Claim C2. Let the read of the durable cache succeed and find no entry for the URL, let
  the next three calls of the collaborator for it fail, and let the write after them
  succeed. Then \<open>processLink\<close> returns normally after exactly three calls, with a wait
  of 1000 before the second and of 2000 before the third and no other wait; the highlight
  with the given id gets the \<open>error\<close> state that carries the message of the third failure;
  and that same state is stored in the durable cache under the URL.
\<close>

theorem processLink_three_failures:
  assumes rd: "storage_fault \<E> (storageOps st) = None"
    and miss: "Map_get u (cacheOf st) = None"
    and f1: "failed (fetch_outcome_of \<E> (fetchCalls st) u)"
    and f2: "failed (fetch_outcome_of \<E> (fetchCalls st + 1) u)"
    and f3: "failed (fetch_outcome_of \<E> (fetchCalls st + 2) u)"
    and wr: "storage_fault \<E> (storageOps st + 1) = None"
    and hl: "Map_get ident (highlights st) = Some h"
  shows "let es = errorState u (failureMessage (fetch_outcome_of \<E> (fetchCalls st + 2) u));
             st' = snd (processLink \<E> ident u st)
         in fst (processLink \<E> ident u st) = None
          \<and> trace st' = trace st @ [GetValue, Fetch u, Delay 1000, Fetch u, Delay 2000, Fetch u]
                @ (if highlightOverlay st then [Render] else [])
                @ [SetValue (Map_set u es (cacheOf st))]
          \<and> fetches (trace st') = fetches (trace st) @ [u, u, u]
          \<and> delays (trace st') = delays (trace st) @ [1000, 2000]
          \<and> status es = Error
          \<and> Map_get ident (highlights st') = Some (h\<lparr>h_state := es\<rparr>)
          \<and> contextCache st' = Some (Map_set u es (cacheOf st))
          \<and> Map_get u (Map_set u es (cacheOf st)) = Some es"
proof -
  define c where "c = cacheOf st"
  define msg where "msg = failureMessage (fetch_outcome_of \<E> (fetchCalls st + 2) u)"
  define es where "es = errorState u msg"
  define s0 where "s0 = st\<lparr>storageOps := Suc (storageOps st), trace := trace st @ [GetValue]\<rparr>"
  define s1 where "s1 = s0\<lparr>fetchCalls := Suc (fetchCalls s0), trace := trace s0 @ [Fetch u]\<rparr>"
  define s2 where "s2 = s1\<lparr>trace := trace s1 @ [Delay 1000]\<rparr>"
  define s3 where "s3 = s2\<lparr>fetchCalls := Suc (fetchCalls s2), trace := trace s2 @ [Fetch u]\<rparr>"
  define s4 where "s4 = s3\<lparr>trace := trace s3 @ [Delay 2000]\<rparr>"
  define s5 where "s5 = s4\<lparr>fetchCalls := Suc (fetchCalls s4), trace := trace s4 @ [Fetch u]\<rparr>"
  define s6 where "s6 = (updateHighlightState ident es s5)
         \<lparr>storageOps := Suc (storageOps s5),
          trace := trace (updateHighlightState ident es s5) @ [SetValue (Map_set u es c)],
          contextCache := Some (Map_set u es c)\<rparr>"
  have pl: "processLink \<E> ident u st = retryLoop \<E> ident u c 0 s0"
    using rd miss
    by (simp add: processLink_def getValue_def Let_def s0_def c_def cacheOf_def)
  have a0: "attemptBody \<E> ident u c 0 s0 = Continue c s2"
    using f1 by (simp add: attemptBody_failed s0_def catchBlock_retry s1_def s2_def)
  have a1: "attemptBody \<E> ident u c 1 s2 = Continue c s4"
    using f2 by (simp add: attemptBody_failed s0_def catchBlock_retry s1_def s2_def s3_def s4_def)
  have "attemptBody \<E> ident u c 2 s4 = catchBlock \<E> ident u c 2 msg s5"
    using f3 by (simp add: attemptBody_failed s0_def s1_def s2_def s3_def s4_def s5_def msg_def
        numeral_2_eq_2)
  moreover have "storage_fault \<E> (storageOps s5) = None"
    using wr by (simp add: s0_def s1_def s2_def s3_def s4_def s5_def)
  ultimately have a2: "attemptBody \<E> ident u c 2 s4 = Continue (Map_set u es c) s6"
    by (simp add: catchBlock_final s6_def es_def)
  have r0: "retryLoop \<E> ident u c 0 s0 = retryLoop \<E> ident u c 1 s2"
    by (subst retryLoop.simps) (simp add: a0)
  have r1: "retryLoop \<E> ident u c 1 s2 = retryLoop \<E> ident u c 2 s4"
    by (subst retryLoop.simps) (simp add: a1 del: One_nat_def)
  have r2: "retryLoop \<E> ident u c 2 s4 = retryLoop \<E> ident u (Map_set u es c) 3 s6"
    by (subst retryLoop.simps) (simp add: a2)
  have res: "processLink \<E> ident u st = (None, s6)"
    by (simp only: pl r0 r1 r2 retryLoop_end)
  have h5: "Map_get ident (highlights s5) = Some h"
    using hl by (simp add: s0_def s1_def s2_def s3_def s4_def s5_def)
  note up = updateHighlightState_present[OF h5, of es]
  have tr: "trace s6 = trace st @ [GetValue, Fetch u, Delay 1000, Fetch u, Delay 2000, Fetch u]
      @ (if highlightOverlay st then [Render] else []) @ [SetValue (Map_set u es c)]"
    using up by (simp add: s6_def s5_def s4_def s3_def s2_def s1_def s0_def)
  have hs: "Map_get ident (highlights s6) = Some (h\<lparr>h_state := es\<rparr>)"
    using up by (simp add: s6_def Map_get_Map_set)
  have cc: "contextCache s6 = Some (Map_set u es c)"
    by (simp add: s6_def)
  have "fetches (trace s6) = fetches (trace st) @ [u, u, u]"
    unfolding tr by (simp add: fetches_def)
  moreover have "delays (trace s6) = delays (trace st) @ [1000, 2000]"
    unfolding tr by (simp add: delays_def)
  moreover have "status es = Error"
    by (simp add: es_def errorState_def)
  ultimately show ?thesis
    using res tr hs cc unfolding Let_def es_def msg_def c_def
    by (simp add: Map_get_Map_set)
qed

theorem processLink_three_failures_witness:
  "fst (processLink failing3 exampleId exampleUrl pendingExample) = None
   \<and> fetches (trace (snd (processLink failing3 exampleId exampleUrl pendingExample)))
       = [exampleUrl, exampleUrl, exampleUrl]
   \<and> delays (trace (snd (processLink failing3 exampleId exampleUrl pendingExample))) = [1000, 2000]
   \<and> map_option (\<lambda>h. status (h_state h))
        (Map_get exampleId (highlights (snd (processLink failing3 exampleId exampleUrl pendingExample))))
       = Some Error
   \<and> contextCache (snd (processLink failing3 exampleId exampleUrl pendingExample))
       = Some [(exampleUrl, errorState exampleUrl (js ''Extension context invalidated.''))]"
proof -
  have rd: "storage_fault failing3 (storageOps pendingExample) = None"
    by (simp add: failing3_def)
  have miss: "Map_get exampleUrl (cacheOf pendingExample) = None"
    by code_simp
  have fc: "fetchCalls pendingExample = 0"
    by code_simp
  have f1: "failed (fetch_outcome_of failing3 (fetchCalls pendingExample) exampleUrl)"
    by (simp add: fc failing3_def failed_def)
  have f2: "failed (fetch_outcome_of failing3 (fetchCalls pendingExample + 1) exampleUrl)"
    by (simp add: fc failing3_def failed_def)
  have f3: "failed (fetch_outcome_of failing3 (fetchCalls pendingExample + 2) exampleUrl)"
    by (simp add: fc failing3_def failed_def)
  have wr: "storage_fault failing3 (storageOps pendingExample + 1) = None"
    by (simp add: failing3_def)
  obtain h where hl: "Map_get exampleId (highlights pendingExample) = Some h"
    by (cases "Map_get exampleId (highlights pendingExample)") (simp_all, code_simp)
  have tr: "fetches (trace pendingExample) = [] \<and> delays (trace pendingExample) = []"
    by code_simp
  have co: "cacheOf pendingExample = []"
    by code_simp
  have msg: "failureMessage (fetch_outcome_of failing3 (fetchCalls pendingExample + 2) exampleUrl)
      = js ''Extension context invalidated.''"
    by (simp add: fc failing3_def failureMessage_def)
  note th = processLink_three_failures[OF rd miss f1 f2 f3 wr hl, unfolded Let_def]
  from th[THEN conjunct1] th[THEN conjunct2, THEN conjunct2] tr co msg show ?thesis
    by (simp add: errorState_def)
qed

section \<open>The message of a refusal\<close>

text \<open>
  Claim C7. The background script answers a failed scrape with
  \<open>{success: false, error: message}\<close>. The \<open>catch\<close> block of \<open>processLink\<close> gets the message
  of the fault that was thrown, and for a response that is no success this is the message
  of \<^verbatim>\<open>new Error(response.data?.metadata?.error || "Unknown error")\<close>, which does not
  read the property \<open>error\<close> of the response. So when the collaborator refuses every
  call with \<open>Firecrawl API key not found\<close>, the state written to the highlight and to the
  cache carries \<open>Unknown error\<close>.
\<close>

theorem refusal_message_is_lost:
  "fetch_outcome_of refusing 2 exampleUrl
     = Resolved \<lparr>success = False, data = None,
                 resp_error = Some (js ''Firecrawl API key not found'')\<rparr>
   \<and> map_option (\<lambda>h. (status (h_state h), error (h_state h)))
        (Map_get exampleId (highlights (snd (processLink refusing exampleId exampleUrl pendingExample))))
       = Some (Error, Some (js ''Unknown error''))
   \<and> contextCache (snd (processLink refusing exampleId exampleUrl pendingExample))
       = Some [(exampleUrl, errorState exampleUrl (js ''Unknown error''))]"
  by code_simp

text \<open>The message of a thrown fault does reach the state, as does a message that the
  response carries in \<open>data.metadata.error\<close>.\<close>

lemma failureMessage_Thrown: "failureMessage (Thrown msg) = msg"
  by (simp add: failureMessage_def)

lemma failureMessage_no_data:
  "data r = None \<Longrightarrow> failureMessage (Resolved r) = js ''Unknown error''"
  by (simp add: failureMessage_def thrownMessage_def)

section \<open>What is written to the durable cache\<close>

definition writes :: "event list \<Rightarrow> cache list" where
  "writes evs = concat (map (\<lambda>e. case e of SetValue c \<Rightarrow> [c] | _ \<Rightarrow> []) evs)"

definition terminal :: "LinkState \<Rightarrow> bool" where
  "terminal s \<longleftrightarrow> status s = Done \<or> status s = Error"

text \<open>
  \<open>terminalWrite u c0 w\<close>: the value \<open>w\<close> handed to the storage is the cache \<open>c0\<close> that was
  read, with a terminal state of the URL \<open>u\<close> put under the key \<open>u\<close>.
\<close>
definition terminalWrite :: "jsstring \<Rightarrow> cache \<Rightarrow> cache \<Rightarrow> bool" where
  "terminalWrite u c0 w \<longleftrightarrow>
     (case Map_get u w of
        None \<Rightarrow> False
      | Some s \<Rightarrow> w = Map_set u s c0 \<and> url s = u \<and> terminal s)"

definition stateOf :: "attempt_end \<Rightarrow> processor" where
  "stateOf r = (case r of Return st \<Rightarrow> st | Escape msg st \<Rightarrow> st | Continue c st \<Rightarrow> st)"

lemma Map_set_Map_set [simp]: "Map_set k v (Map_set k v' m) = Map_set k v m"
  by (induction m) auto

lemma writes_simps [simp]:
  "writes [] = []"
  "writes (evs @ evs') = writes evs @ writes evs'"
  "writes (SetValue c # evs) = c # writes evs"
  "writes (Fetch u # evs) = writes evs"
  "writes (Delay n # evs) = writes evs"
  "writes (Render # evs) = writes evs"
  "writes (GetValue # evs) = writes evs"
  by (simp_all add: writes_def)

lemma terminalWrite_done: "terminalWrite u c0 (Map_set u (doneState u d) c0)"
  by (simp add: terminalWrite_def Map_get_Map_set doneState_def terminal_def)

lemma terminalWrite_error: "terminalWrite u c0 (Map_set u (errorState u msg) c0)"
  by (simp add: terminalWrite_def Map_get_Map_set errorState_def terminal_def)

definition localOk :: "jsstring \<Rightarrow> cache \<Rightarrow> cache \<Rightarrow> bool" where
  "localOk u c0 c \<longleftrightarrow> c = c0 \<or> (\<exists>s. c = Map_set u s c0)"

lemma localOk_set: "localOk u c0 c \<Longrightarrow> Map_set u s c = Map_set u s c0"
  by (auto simp: localOk_def)

text \<open>
  \<open>extends u c0 st st'\<close>: from \<open>st\<close> to \<open>st'\<close> the trace has only grown, every value written
  on the way is a terminal write for \<open>u\<close>, and the stored cache is as before or such a value.
\<close>
definition extends :: "jsstring \<Rightarrow> cache \<Rightarrow> processor \<Rightarrow> processor \<Rightarrow> bool" where
  "extends u c0 st st' \<longleftrightarrow>
     (\<exists>evs. trace st' = trace st @ evs \<and> (\<forall>w\<in>set (writes evs). terminalWrite u c0 w))
     \<and> (contextCache st' = contextCache st \<or>
        (\<exists>w. contextCache st' = Some w \<and> terminalWrite u c0 w))"

lemma extends_refl: "extends u c0 st st"
  by (simp add: extends_def)

lemma extends_trans:
  "extends u c0 st st' \<Longrightarrow> extends u c0 st' st'' \<Longrightarrow> extends u c0 st st''"
  unfolding extends_def by (elim conjE exE) (auto; force)

lemma extends_event:
  "writes [e] = [] \<Longrightarrow> extends u c0 st (st\<lparr>trace := trace st @ [e]\<rparr>)"
  by (simp add: extends_def)

lemma extends_fetch: "extends u c0 st (snd (fetchLinkContext \<E> u' st))"
  by (simp add: extends_def fetchLinkContext_def)

lemma extends_delay: "extends u c0 st (delay n st)"
  by (simp add: extends_def delay_def)

lemma extends_update: "extends u c0 st (updateHighlightState i s st)"
proof (cases "Map_get i (highlights st)")
  case None
  then show ?thesis
    by (simp add: updateHighlightState_absent extends_refl)
next
  case (Some h)
  from updateHighlightState_present[OF Some, of s] show ?thesis
    by (simp add: extends_def)
qed

lemma extends_setValue:
  "terminalWrite u c0 w \<Longrightarrow> extends u c0 st (snd (setValue \<E> w st))"
  by (auto simp: extends_def setValue_def Let_def split: option.splits)

lemma catchBlock_extends:
  assumes "localOk u c0 c"
  shows "extends u c0 st (stateOf (catchBlock \<E> ident u c attempt msg st))
    \<and> (\<forall>c' st'. catchBlock \<E> ident u c attempt msg st = Continue c' st' \<longrightarrow> localOk u c0 c')"
proof (cases "attempt = 2")
  case False
  then show ?thesis
    using assms by (simp add: catchBlock_def stateOf_def extends_delay)
next
  case True
  define es where "es = errorState u msg"
  define st1 where "st1 = updateHighlightState ident es st"
  have w: "terminalWrite u c0 (Map_set u es c)"
    using assms by (simp add: localOk_set es_def terminalWrite_error)
  have e1: "extends u c0 st st1"
    by (simp add: st1_def extends_update)
  have e2: "extends u c0 st1 (snd (setValue \<E> (Map_set u es c) st1))"
    using w by (rule extends_setValue)
  have "stateOf (catchBlock \<E> ident u c attempt msg st) = snd (setValue \<E> (Map_set u es c) st1)"
    using True
    by (simp add: catchBlock_def Let_def stateOf_def es_def st1_def split: prod.splits option.splits)
  moreover have "\<forall>c' st'. catchBlock \<E> ident u c attempt msg st = Continue c' st' \<longrightarrow> localOk u c0 c'"
    using True assms
    by (auto simp: catchBlock_def Let_def localOk_def split: prod.splits option.splits)
  ultimately show ?thesis
    using extends_trans[OF e1 e2] by simp
qed

lemma attemptBody_extends:
  assumes "localOk u c0 c"
  shows "extends u c0 st (stateOf (attemptBody \<E> ident u c attempt st))
    \<and> (\<forall>c' st'. attemptBody \<E> ident u c attempt st = Continue c' st' \<longrightarrow> localOk u c0 c')"
proof -
  define st1 where "st1 = snd (fetchLinkContext \<E> u st)"
  define oc where "oc = fst (fetchLinkContext \<E> u st)"
  have e0: "extends u c0 st st1"
    by (simp add: st1_def extends_fetch)
  have ab: "attemptBody \<E> ident u c attempt st =
    (case oc of
        Thrown msg \<Rightarrow> catchBlock \<E> ident u c attempt msg st1
      | Resolved r \<Rightarrow>
          (case (if success r then data r else None) of
             Some d \<Rightarrow>
               let newState = doneState u d;
                   c' = Map_set u newState c;
                   st2 = updateHighlightState ident newState st1;
                   (w, st3) = setValue \<E> c' st2
               in (case w of
                     None \<Rightarrow> Return st3
                   | Some msg \<Rightarrow> catchBlock \<E> ident u c' attempt msg st3)
           | None \<Rightarrow> catchBlock \<E> ident u c attempt (thrownMessage r) st1))"
    unfolding attemptBody_def oc_def st1_def Let_def case_prod_beta by (rule refl)
  show ?thesis
  proof (cases oc)
    case (Thrown msg)
    with ab have "attemptBody \<E> ident u c attempt st = catchBlock \<E> ident u c attempt msg st1"
      by simp
    with catchBlock_extends[OF assms, of st1 \<E> ident attempt msg] e0 show ?thesis
      by (auto intro: extends_trans)
  next
    case (Resolved r)
    show ?thesis
    proof (cases "if success r then data r else None")
      case None
      with ab Resolved
      have "attemptBody \<E> ident u c attempt st = catchBlock \<E> ident u c attempt (thrownMessage r) st1"
        by simp
      with catchBlock_extends[OF assms, of st1 \<E> ident attempt "thrownMessage r"] e0 show ?thesis
        by (auto intro: extends_trans)
    next
      case (Some d)
      define c' where "c' = Map_set u (doneState u d) c"
      define st2 where "st2 = updateHighlightState ident (doneState u d) st1"
      define st3 where "st3 = snd (setValue \<E> c' st2)"
      have c'eq: "c' = Map_set u (doneState u d) c0"
        using assms by (simp add: c'_def localOk_set)
      have lo: "localOk u c0 c'"
        by (auto simp: localOk_def c'eq)
      have w: "terminalWrite u c0 c'"
        by (simp add: c'eq terminalWrite_done)
      have e3: "extends u c0 st st3"
        using e0 extends_update[of u c0 st1 ident "doneState u d"] extends_setValue[OF w, of st2 \<E>]
        by (auto simp: st2_def st3_def intro: extends_trans)
      have ab': "attemptBody \<E> ident u c attempt st =
        (case fst (setValue \<E> c' st2) of None \<Rightarrow> Return st3
          | Some msg \<Rightarrow> catchBlock \<E> ident u c' attempt msg st3)"
        using ab Resolved Some
        unfolding c'_def st2_def st3_def Let_def case_prod_beta by simp
      show ?thesis
      proof (cases "fst (setValue \<E> c' st2)")
        case None
        with ab' e3 show ?thesis by (simp add: stateOf_def)
      next
        case (Some msg)
        with ab' have "attemptBody \<E> ident u c attempt st = catchBlock \<E> ident u c' attempt msg st3"
          by simp
        with catchBlock_extends[OF lo, of st3 \<E> ident attempt msg] e3 show ?thesis
          by (auto intro: extends_trans)
      qed
    qed
  qed
qed

lemma retryLoop_extends:
  "localOk u c0 c \<Longrightarrow> extends u c0 st (snd (retryLoop \<E> ident u c attempt st))"
proof (induction \<E> ident u c attempt st rule: retryLoop.induct)
  case (1 \<E> ident u c attempt st)
  show ?case
  proof (cases "attempt < 3")
    case False
    then show ?thesis
      by (subst retryLoop.simps) (simp add: extends_refl)
  next
    case True
    note ab = attemptBody_extends[OF "1.prems", of st \<E> ident attempt]
    show ?thesis
    proof (cases "attemptBody \<E> ident u c attempt st")
      case (Return st')
      with ab True show ?thesis
        by (subst retryLoop.simps) (simp add: stateOf_def)
    next
      case (Escape msg st')
      with ab True show ?thesis
        by (subst retryLoop.simps) (simp add: stateOf_def)
    next
      case (Continue c' st')
      with ab have lo: "localOk u c0 c'" and e: "extends u c0 st st'"
        by (simp_all add: stateOf_def)
      from "1.IH"[OF True Continue lo] e True Continue show ?thesis
        by (subst retryLoop.simps) (auto intro: extends_trans)
    qed
  qed
qed

lemma processLink_extends:
  "extends u (cacheOf st) st (snd (processLink \<E> ident u st))"
proof -
  define st1 where "st1 = snd (getValue \<E> st)"
  have e0: "extends u (cacheOf st) st st1"
    by (auto simp: st1_def getValue_def Let_def extends_def split: option.splits)
  show ?thesis
  proof (cases "fst (getValue \<E> st)")
    case (Inl msg)
    then show ?thesis
      using e0 by (simp add: processLink_def st1_def case_prod_beta)
  next
    case (Inr stored)
    then have stored: "stored = contextCache st"
      by (auto simp: getValue_def Let_def split: option.splits)
    show ?thesis
    proof (cases "Map_get u (cacheOf st)")
      case (Some cached)
      then have "snd (processLink \<E> ident u st) = updateHighlightState ident cached st1"
        using Inr stored
        by (simp add: processLink_def st1_def cacheOf_def Let_def case_prod_beta)
      then show ?thesis
        using e0 extends_update[of u "cacheOf st" st1 ident cached] by (auto intro: extends_trans)
    next
      case None
      then have "processLink \<E> ident u st = retryLoop \<E> ident u (cacheOf st) 0 st1"
        using Inr stored
        by (simp add: processLink_def st1_def cacheOf_def Let_def case_prod_beta)
      then show ?thesis
        using e0 retryLoop_extends[of u "cacheOf st" "cacheOf st" st1 \<E> ident 0]
        by (auto simp: localOk_def intro: extends_trans)
    qed
  qed
qed

definition sameStore :: "processor \<Rightarrow> processor \<Rightarrow> bool" where
  "sameStore a b \<longleftrightarrow>
     contextCache a = contextCache b \<and> storageOps a = storageOps b \<and> fetchCalls a = fetchCalls b"

fun sameEnd :: "attempt_end \<Rightarrow> attempt_end \<Rightarrow> bool" where
  "sameEnd (Return a) (Return b) = sameStore a b"
| "sameEnd (Escape m a) (Escape m' b) = (m = m' \<and> sameStore a b)"
| "sameEnd (Continue c a) (Continue c' b) = (c = c' \<and> sameStore a b)"
| "sameEnd _ _ = False"

lemma sameStore_update:
  "sameStore a b \<Longrightarrow> sameStore (updateHighlightState i s a) (updateHighlightState j s' b)"
  by (simp add: sameStore_def)

lemma setValue_same:
  "sameStore a b \<Longrightarrow>
   fst (setValue \<E> c a) = fst (setValue \<E> c b) \<and> sameStore (snd (setValue \<E> c a)) (snd (setValue \<E> c b))"
  by (auto simp: sameStore_def setValue_def Let_def split: option.splits)

lemma catchBlock_same:
  assumes "sameStore a b"
  shows "sameEnd (catchBlock \<E> i u c attempt msg a) (catchBlock \<E> j u c attempt msg b)"
proof (cases "attempt = 2")
  case False
  with assms show ?thesis
    by (simp add: catchBlock_def delay_def sameStore_def)
next
  case True
  define es where "es = errorState u msg"
  note sv = setValue_same[OF sameStore_update[OF assms, of i es j es], of \<E> "Map_set u es c"]
  show ?thesis
  proof (cases "fst (setValue \<E> (Map_set u es c) (updateHighlightState i es a))")
    case None
    with sv True show ?thesis
      by (simp add: catchBlock_def Let_def case_prod_beta es_def)
  next
    case (Some m)
    with sv True show ?thesis
      by (simp add: catchBlock_def Let_def case_prod_beta es_def)
  qed
qed

lemma fetch_same:
  "sameStore a b \<Longrightarrow>
   fst (fetchLinkContext \<E> u a) = fst (fetchLinkContext \<E> u b)
   \<and> sameStore (snd (fetchLinkContext \<E> u a)) (snd (fetchLinkContext \<E> u b))"
  by (simp add: sameStore_def fetchLinkContext_def)

lemma attemptBody_unfold:
  "attemptBody \<E> ident u c attempt st =
    (case fst (fetchLinkContext \<E> u st) of
        Thrown msg \<Rightarrow> catchBlock \<E> ident u c attempt msg (snd (fetchLinkContext \<E> u st))
      | Resolved r \<Rightarrow>
          (case (if success r then data r else None) of
             Some d \<Rightarrow>
               (case fst (setValue \<E> (Map_set u (doneState u d) c)
                           (updateHighlightState ident (doneState u d) (snd (fetchLinkContext \<E> u st)))) of
                  None \<Rightarrow> Return (snd (setValue \<E> (Map_set u (doneState u d) c)
                           (updateHighlightState ident (doneState u d) (snd (fetchLinkContext \<E> u st)))))
                | Some msg \<Rightarrow> catchBlock \<E> ident u (Map_set u (doneState u d) c) attempt msg
                     (snd (setValue \<E> (Map_set u (doneState u d) c)
                           (updateHighlightState ident (doneState u d) (snd (fetchLinkContext \<E> u st))))))
           | None \<Rightarrow> catchBlock \<E> ident u c attempt (thrownMessage r) (snd (fetchLinkContext \<E> u st))))"
  unfolding attemptBody_def Let_def case_prod_beta by (rule refl)

lemma attemptBody_same:
  assumes "sameStore a b"
  shows "sameEnd (attemptBody \<E> i u c attempt a) (attemptBody \<E> j u c attempt b)"
proof -
  note f = fetch_same[OF assms, of \<E> u]
  define a1 where "a1 = snd (fetchLinkContext \<E> u a)"
  define b1 where "b1 = snd (fetchLinkContext \<E> u b)"
  define oc where "oc = fst (fetchLinkContext \<E> u a)"
  have fa: "fst (fetchLinkContext \<E> u a) = oc" by (simp add: oc_def)
  have fb: "fst (fetchLinkContext \<E> u b) = oc" using f by (simp add: oc_def)
  have s1: "sameStore a1 b1" using f by (simp add: a1_def b1_def)
  show ?thesis
  proof (cases oc)
    case (Thrown msg)
    with catchBlock_same[OF s1, of \<E> i u c attempt msg j] show ?thesis
      by (simp add: attemptBody_unfold fa fb a1_def b1_def)
  next
    case (Resolved r)
    show ?thesis
    proof (cases "if success r then data r else None")
      case None
      with Resolved catchBlock_same[OF s1, of \<E> i u c attempt "thrownMessage r" j] show ?thesis
        by (simp add: attemptBody_unfold fa fb a1_def b1_def)
    next
      case (Some d)
      define c' where "c' = Map_set u (doneState u d) c"
      define a2 where "a2 = snd (setValue \<E> c' (updateHighlightState i (doneState u d) a1))"
      define b2 where "b2 = snd (setValue \<E> c' (updateHighlightState j (doneState u d) b1))"
      define w where "w = fst (setValue \<E> c' (updateHighlightState i (doneState u d) a1))"
      note sv = setValue_same[OF sameStore_update[OF s1, of i "doneState u d" j "doneState u d"], of \<E> c']
      have wa: "fst (setValue \<E> c' (updateHighlightState i (doneState u d) a1)) = w"
        by (simp add: w_def)
      have wb: "fst (setValue \<E> c' (updateHighlightState j (doneState u d) b1)) = w"
        using sv by (simp add: w_def)
      have s2: "sameStore a2 b2"
        using sv by (simp add: a2_def b2_def)
      have ea: "attemptBody \<E> i u c attempt a =
          (case w of None \<Rightarrow> Return a2 | Some msg \<Rightarrow> catchBlock \<E> i u c' attempt msg a2)"
        using Resolved Some wa unfolding attemptBody_unfold fa a2_def c'_def a1_def by simp
      have eb: "attemptBody \<E> j u c attempt b =
          (case w of None \<Rightarrow> Return b2 | Some msg \<Rightarrow> catchBlock \<E> j u c' attempt msg b2)"
        using Resolved Some wb unfolding attemptBody_unfold fb b2_def c'_def b1_def by simp
      show ?thesis
      proof (cases w)
        case None
        with ea eb s2 show ?thesis by simp
      next
        case (Some msg)
        with ea eb catchBlock_same[OF s2, of \<E> i u c' attempt msg j] show ?thesis by simp
      qed
    qed
  qed
qed

lemma retryLoop_done: "\<not> attempt < 3 \<Longrightarrow> retryLoop \<E> i u c attempt st = (None, st)"
  by (subst retryLoop.simps) simp

lemma retryLoop_more:
  "attempt < 3 \<Longrightarrow> retryLoop \<E> i u c attempt st =
     (case attemptBody \<E> i u c attempt st of
           Return st' \<Rightarrow> (None, st')
         | Escape msg st' \<Rightarrow> (Some msg, st')
         | Continue c' st' \<Rightarrow> retryLoop \<E> i u c' (attempt + 1) st')"
  by (subst retryLoop.simps) simp

lemma retryLoop_same:
  "sameStore a b \<Longrightarrow>
   fst (retryLoop \<E> i u c attempt a) = fst (retryLoop \<E> j u c attempt b)
   \<and> sameStore (snd (retryLoop \<E> i u c attempt a)) (snd (retryLoop \<E> j u c attempt b))"
proof (induction "3 - attempt" arbitrary: attempt c a b)
  case 0
  then have "\<not> attempt < 3" by simp
  with 0 show ?case
    by (simp add: retryLoop_done)
next
  case (Suc n)
  then have lt: "attempt < 3" by simp
  note ab = attemptBody_same[OF Suc.prems, of \<E> i u c attempt j]
  note ua = retryLoop_more[OF lt, of \<E> i u c a]
  note ub = retryLoop_more[OF lt, of \<E> j u c b]
  show ?case
  proof (cases "attemptBody \<E> i u c attempt a")
    case (Return a')
    with ab obtain b' where "attemptBody \<E> j u c attempt b = Return b'" "sameStore a' b'"
      by (cases "attemptBody \<E> j u c attempt b") auto
    with Return show ?thesis
      unfolding ua ub by simp
  next
    case (Escape m a')
    with ab obtain b' where "attemptBody \<E> j u c attempt b = Escape m b'" "sameStore a' b'"
      by (cases "attemptBody \<E> j u c attempt b") auto
    with Escape show ?thesis
      unfolding ua ub by simp
  next
    case (Continue c' a')
    with ab obtain b' where b': "attemptBody \<E> j u c attempt b = Continue c' b'" "sameStore a' b'"
      by (cases "attemptBody \<E> j u c attempt b") auto
    have "n = 3 - (attempt + 1)" using Suc.hyps(2) by simp
    from Suc.hyps(1)[OF this b'(2), of c'] Continue b'(1) show ?thesis
      unfolding ua ub by simp
  qed
qed

lemma processLink_same:
  "contextCache (snd (processLink \<E> i u st)) = contextCache (snd (processLink \<E> j u st))"
proof -
  define st1 where "st1 = snd (getValue \<E> st)"
  have ss: "sameStore st1 st1" by (simp add: sameStore_def)
  show ?thesis
  proof (cases "fst (getValue \<E> st)")
    case (Inl msg)
    then show ?thesis
      by (simp add: processLink_def case_prod_beta)
  next
    case (Inr stored)
    define c where "c = (case stored of None \<Rightarrow> [] | Some c \<Rightarrow> c)"
    show ?thesis
    proof (cases "Map_get u c")
      case None
      with Inr retryLoop_same[OF ss, of \<E> i u c 0 j] show ?thesis
        by (simp add: processLink_def case_prod_beta c_def st1_def sameStore_def)
    next
      case (Some cached)
      with Inr show ?thesis
        by (simp add: processLink_def case_prod_beta c_def)
    qed
  qed
qed

definition terminalCache :: "cache \<Rightarrow> bool" where
  "terminalCache c \<longleftrightarrow> (\<forall>(k, s)\<in>set c. terminal s)"

text \<open>
  Claim C9. Whatever the collaborators do, every value that \<open>processLink\<close> writes to the
  durable cache is the cache it has read with a state of the URL put under the key that
  is the URL, and the status of that state is \<open>done\<close> or \<open>error\<close>; the stored cache
  afterwards is the one before or such a value. The id of the highlight plays no part in
  it: for one URL the stored cache is the same whatever the id, so the highlights of one
  URL share the entry.
\<close>

theorem processLink_writes_terminal:
  "(\<forall>w\<in>set (writes (drop (length (trace st)) (trace (snd (processLink \<E> ident u st))))).
       terminalWrite u (cacheOf st) w)
   \<and> (contextCache (snd (processLink \<E> ident u st)) = contextCache st
      \<or> (\<exists>w. contextCache (snd (processLink \<E> ident u st)) = Some w
              \<and> terminalWrite u (cacheOf st) w))
   \<and> contextCache (snd (processLink \<E> ident u st))
      = contextCache (snd (processLink \<E> ident' u st))"
proof -
  from processLink_extends[of u st \<E> ident]
  obtain evs where "trace (snd (processLink \<E> ident u st)) = trace st @ evs"
    and "\<forall>w\<in>set (writes evs). terminalWrite u (cacheOf st) w"
    and "contextCache (snd (processLink \<E> ident u st)) = contextCache st
      \<or> (\<exists>w. contextCache (snd (processLink \<E> ident u st)) = Some w
              \<and> terminalWrite u (cacheOf st) w)"
    unfolding extends_def by blast
  then show ?thesis
    using processLink_same[of \<E> ident u st ident'] by simp
qed

theorem processLink_writes_terminal_witness:
  "writes (drop (length (trace pendingExample))
            (trace (snd (processLink reliable exampleId exampleUrl pendingExample))))
     = [[(exampleUrl, doneState exampleUrl exampleData)]]
   \<and> terminalWrite exampleUrl (cacheOf pendingExample)
        [(exampleUrl, doneState exampleUrl exampleData)]
   \<and> contextCache (snd (processLink reliable exampleId exampleUrl pendingExample))
      = contextCache (snd (processLink reliable (js ''another_id'') exampleUrl pendingExample))"
proof -
  have w: "writes (drop (length (trace pendingExample))
            (trace (snd (processLink reliable exampleId exampleUrl pendingExample))))
     = [[(exampleUrl, doneState exampleUrl exampleData)]]"
    by code_simp
  from processLink_writes_terminal[of pendingExample reliable exampleId exampleUrl "js ''another_id''"]
  show ?thesis
    unfolding w by simp
qed


section \<open>The two descriptions of the orchestrator agree\<close>

text \<open>
  \<open>settle\<close> lets a suspended call go on from \<open>await\<close> to \<open>await\<close> until it ends, with nothing
  else in between. A call that is started and then settled does what \<open>processLink\<close> says
  (\<open>processLink_by_awaits\<close>).
\<close>

lemma beginAttempt_weight:
  "beginAttempt \<E> ident u c attempt st = (Suspended call', st') \<Longrightarrow>
   weight call' = 3 * (3 - attempt) + 3 \<and> attempt < 3"
  by (auto simp: beginAttempt_def fetchLinkContext_def split: if_splits)

lemma enterCatch_weight:
  "enterCatch \<E> ident u c attempt msg st = (Suspended call', st') \<Longrightarrow>
   weight call' \<le> 3 * (3 - attempt) + 1"
  by (auto simp: enterCatch_def Let_def case_prod_beta split: if_splits)

lemma resume_weight:
  "resume \<E> call st = (Suspended call', st') \<Longrightarrow> weight call' < weight call"
proof (cases call)
  case (AfterGetValue ident u g)
  then show "resume \<E> call st = (Suspended call', st') \<Longrightarrow> ?thesis"
    by (auto simp: Let_def split: sum.splits option.splits dest!: beginAttempt_weight)
next
  case (AfterFetch ident u c attempt outcome)
  then show "resume \<E> call st = (Suspended call', st') \<Longrightarrow> ?thesis"
    by (auto simp: Let_def case_prod_beta split: fetch_outcome.splits option.splits if_splits
        dest!: enterCatch_weight)
next
  case (AfterSetValue ident u c attempt w)
  then show "resume \<E> call st = (Suspended call', st') \<Longrightarrow> ?thesis"
    by (auto split: option.splits dest!: enterCatch_weight)
next
  case (AfterLastSetValue r)
  then show "resume \<E> call st = (Suspended call', st') \<Longrightarrow> ?thesis"
    by simp
next
  case (AfterDelay ident u c attempt)
  then show "resume \<E> call st = (Suspended call', st') \<Longrightarrow> ?thesis"
    by (auto dest!: beginAttempt_weight)
qed

function settle :: "env \<Rightarrow> pending_call \<Rightarrow> processor \<Rightarrow> jsstring option \<times> processor" where
  "settle \<E> call st =
     (case resume \<E> call st of
        (Suspended call', st') \<Rightarrow> settle \<E> call' st'
      | (Settled r, st') \<Rightarrow> (r, st'))"
  by pat_completeness auto
termination
  by (relation "measure (\<lambda>(\<E>, call, st). weight call)") (auto dest: resume_weight[OF sym])

declare settle.simps [simp del]

definition finish :: "env \<Rightarrow> call_step \<times> processor \<Rightarrow> jsstring option \<times> processor" where
  "finish \<E> r = (case r of (Suspended call, st) \<Rightarrow> settle \<E> call st | (Settled x, st) \<Rightarrow> (x, st))"

lemma settle_finish: "settle \<E> call st = finish \<E> (resume \<E> call st)"
  by (subst settle.simps) (simp add: finish_def split: prod.splits call_step.splits)

lemma finish_Suspended: "finish \<E> (Suspended call, st) = finish \<E> (resume \<E> call st)"
  by (simp add: finish_def settle_finish)

lemma finish_Settled: "finish \<E> (Settled x, st) = (x, st)"
  by (simp add: finish_def)

definition endOf :: "env \<Rightarrow> jsstring \<Rightarrow> jsstring \<Rightarrow> nat \<Rightarrow> attempt_end \<Rightarrow> jsstring option \<times> processor" where
  "endOf \<E> ident u attempt e =
     (case e of
        Return st' \<Rightarrow> (None, st')
      | Escape msg st' \<Rightarrow> (Some msg, st')
      | Continue c' st' \<Rightarrow> finish \<E> (beginAttempt \<E> ident u c' (attempt + 1) st'))"

lemma finish_enterCatch:
  assumes "attempt < 3"
  shows "finish \<E> (enterCatch \<E> ident u c attempt msg st)
     = endOf \<E> ident u attempt (catchBlock \<E> ident u c attempt msg st)"
proof (cases "attempt = 2")
  case True
  obtain r st2 where sv: "setValue \<E> (Map_set u (errorState u msg) c)
      (updateHighlightState ident (errorState u msg) st) = (r, st2)"
    by (cases "setValue \<E> (Map_set u (errorState u msg) c)
      (updateHighlightState ident (errorState u msg) st)")
  show ?thesis
    by (cases r)
       (simp_all add: True enterCatch_def catchBlock_def endOf_def finish_def settle_finish
          Let_def sv beginAttempt_def)
next
  case False
  then show ?thesis
    by (simp add: enterCatch_def catchBlock_def endOf_def finish_def settle_finish)
qed

lemma finish_beginAttempt:
  assumes lt: "attempt < 3"
  shows "finish \<E> (beginAttempt \<E> ident u c attempt st)
     = endOf \<E> ident u attempt (attemptBody \<E> ident u c attempt st)"
proof -
  obtain outcome st1 where fl: "fetchLinkContext \<E> u st = (outcome, st1)"
    by (cases "fetchLinkContext \<E> u st")
  have l: "finish \<E> (beginAttempt \<E> ident u c attempt st)
      = finish \<E> (resume \<E> (AfterFetch ident u c attempt outcome) st1)"
    by (simp add: beginAttempt_def lt fl finish_def settle_finish)
  show ?thesis
  proof (cases outcome)
    case (Thrown msg)
    then show ?thesis
      by (simp add: l attemptBody_def fl finish_enterCatch[OF lt])
  next
    case (Resolved r)
    show ?thesis
    proof (cases "if success r then data r else None")
      case None
      then show ?thesis
        by (simp add: l attemptBody_def fl Resolved finish_enterCatch[OF lt])
    next
      case (Some d)
      obtain w st3 where sv: "setValue \<E> (Map_set u (doneState u d) c)
          (updateHighlightState ident (doneState u d) st1) = (w, st3)"
        by (cases "setValue \<E> (Map_set u (doneState u d) c)
          (updateHighlightState ident (doneState u d) st1)")
      show ?thesis
        unfolding l
        by (cases w)
           (simp_all add: attemptBody_def fl Resolved Some Let_def sv finish_Suspended
              finish_Settled finish_enterCatch[OF lt] endOf_def)
    qed
  qed
qed

lemma retryLoop_by_awaits:
  "retryLoop \<E> ident u c attempt st = finish \<E> (beginAttempt \<E> ident u c attempt st)"
proof (induction "3 - attempt" arbitrary: attempt c st)
  case 0
  then show ?case
    by (simp add: retryLoop_done beginAttempt_def finish_def)
next
  case (Suc n)
  then have lt: "attempt < 3" by simp
  from Suc(2) have n: "n = 3 - Suc attempt" by simp
  show ?case
    unfolding retryLoop_more[OF lt] finish_beginAttempt[OF lt] endOf_def
    by (simp add: Suc(1)[OF n] split: attempt_end.splits)
qed

lemma processLink_by_awaits:
  "processLink \<E> ident u st
     = (let (call, st1) = startProcessLink \<E> ident u st in settle \<E> call st1)"
proof -
  obtain g st1 where gv: "getValue \<E> st = (g, st1)"
    by (cases "getValue \<E> st")
  have "processLink \<E> ident u st = finish \<E> (resume \<E> (AfterGetValue ident u g) st1)"
    by (simp add: processLink_def gv retryLoop_by_awaits finish_def Let_def
        split: sum.splits option.splits)
  then show ?thesis
    by (simp add: startProcessLink_def gv settle_finish)
qed

section \<open>Facts about strings and the scanner\<close>

text \<open>\<open>includes\<close> holds exactly when the text occurs in the string.\<close>

lemma indexOf_Some_iff: "indexOf s p \<noteq> None \<longleftrightarrow> (\<exists>a b. s = a @ p @ b)"
proof (induction s)
  case Nil
  then show ?case by auto
next
  case (Cons c cs)
  show ?case
  proof (cases "prefix p (c # cs)")
    case True
    then obtain b where "c # cs = p @ b" by (auto simp: prefix_def)
    then have "c # cs = [] @ p @ b" by simp
    then have "\<exists>a b. c # cs = a @ p @ b" by blast
    moreover have "indexOf (c # cs) p = Some 0" using True by simp
    ultimately show ?thesis by simp
  next
    case False
    have "(\<exists>a b. c # cs = a @ p @ b) \<longleftrightarrow> (\<exists>a b. cs = a @ p @ b)"
    proof
      assume "\<exists>a b. c # cs = a @ p @ b"
      then obtain a b where ab: "c # cs = a @ p @ b" by blast
      show "\<exists>a b. cs = a @ p @ b"
      proof (cases a)
        case Nil
        with ab have "prefix p (c # cs)" by (simp add: prefix_def)
        with False show ?thesis by simp
      next
        case (Cons x a')
        with ab have "cs = a' @ p @ b" by simp
        then show ?thesis by blast
      qed
    next
      assume "\<exists>a b. cs = a @ p @ b"
      then obtain a b where "cs = a @ p @ b" by blast
      then have "c # cs = (c # a) @ p @ b" by simp
      then show "\<exists>a b. c # cs = a @ p @ b" by blast
    qed
    with False Cons.IH show ?thesis by simp
  qed
qed

lemma includes_js_iff: "includes_js s p \<longleftrightarrow> (\<exists>a b. s = a @ p @ b)"
  unfolding includes_js_def by (rule indexOf_Some_iff)

lemma indexOf_Some_bound: "indexOf s p = Some i \<Longrightarrow> i + length p \<le> length s"
proof (induction s arbitrary: i)
  case Nil
  then show ?case by (auto split: if_splits)
next
  case (Cons c cs)
  show ?case
  proof (cases "prefix p (c # cs)")
    case True
    then have "length p \<le> length (c # cs)"
      by (rule prefix_length_le)
    with True Cons.prems show ?thesis
      by simp
  next
    case False
    with Cons.prems obtain j where "indexOf cs p = Some j" "i = Suc j"
      by (auto split: option.splits)
    with Cons.IH[of j] show ?thesis by simp
  qed
qed

text \<open>Every match of the scanner occurs in the text, and comes from one run of the pattern.\<close>

lemma matchAll_occurs:
  "(m0, m1) \<in> set (matchAll s) \<Longrightarrow> \<exists>a b. s = a @ m0 @ b"
proof (induction s rule: matchAll.induct)
  case 1
  then show ?case by simp
next
  case (2 c cs)
  show ?case
  proof (cases "URL_REGEX_exec (c # cs)")
    case None
    with 2 obtain a b where "cs = a @ m0 @ b" by auto
    then have "c # cs = (c # a) @ m0 @ b" by simp
    then show ?thesis by blast
  next
    case (Some r)
    obtain n0 n1 rest where r: "r = (n0, n1, rest)" by (cases r)
    from URL_REGEX_exec_Some[OF Some[unfolded r]] have s: "c # cs = n0 @ rest" by simp
    from 2(3) Some r have "(m0, m1) = (n0, n1) \<or> (m0, m1) \<in> set (matchAll rest)" by simp
    then show ?thesis
    proof
      assume "(m0, m1) = (n0, n1)"
      with s have "c # cs = [] @ m0 @ rest" by simp
      then show ?thesis by blast
    next
      assume "(m0, m1) \<in> set (matchAll rest)"
      with 2(2)[OF Some, of n0 "(n1, rest)" n1 rest] r
      obtain a b where "rest = a @ m0 @ b" by auto
      with s have "c # cs = (n0 @ a) @ m0 @ b" by simp
      then show ?thesis by blast
    qed
  qed
qed

lemma matchAll_exec:
  "(m0, m1) \<in> set (matchAll s) \<Longrightarrow> \<exists>s' rest. URL_REGEX_exec s' = Some (m0, m1, rest)"
proof (induction s rule: matchAll.induct)
  case 1
  then show ?case by simp
next
  case (2 c cs)
  show ?case
  proof (cases "URL_REGEX_exec (c # cs)")
    case None
    with 2 show ?thesis by auto
  next
    case (Some r)
    obtain n0 n1 rest where r: "r = (n0, n1, rest)" by (cases r)
    from 2(3) Some r have "(m0, m1) = (n0, n1) \<or> (m0, m1) \<in> set (matchAll rest)" by simp
    then show ?thesis
    proof
      assume "(m0, m1) = (n0, n1)"
      with Some r show ?thesis by blast
    next
      assume "(m0, m1) \<in> set (matchAll rest)"
      with 2(2)[OF Some, of n0 "(n1, rest)" n1 rest] r show ?thesis by auto
    qed
  qed
qed

lemma match_http: "(m0, m1) \<in> set (matchAll s) \<Longrightarrow> prefix HTTP m1"
  using matchAll_exec URL_REGEX_exec_Some by blast

lemma generateId_append: "generateId (a @ b) = generateId a @ generateId b"
  by (simp add: generateId_def)

lemma space_not_word: "is_space c \<Longrightarrow> \<not> is_word c"
  unfolding is_space_def is_word_def by (auto simp: word_le_nat_alt)

lemma generateId_AT_LINK: "generateId AT_LINK = js ''_link''"
  by (simp add: generateId_def AT_LINK_def js_def is_word_def)


section \<open>Facts about reconciliation\<close>

text \<open>
  \<open>pendingState u\<close> is the state of a new highlight for the URL \<open>u\<close>, and
  \<open>freshHighlight element m\<close> the highlight that reconciliation of the surface \<open>element\<close>
  makes for the match \<open>m\<close>; \<open>idOf m\<close> is the id of the match. \<open>resolves element m\<close> says
  that \<open>findRangeForMatch\<close> throws nothing for the text of \<open>m\<close>: the first occurrence of the
  text in the surface ends in the text node in which it starts.
\<close>

definition pendingState :: "jsstring \<Rightarrow> LinkState" where
  "pendingState u =
     \<lparr>url = u, status = Pending, context_md = None, screenshot = None, metadata = None,
      error = None\<rparr>"

definition freshHighlight :: "node list \<Rightarrow> jsstring \<times> jsstring \<Rightarrow> Highlight" where
  "freshHighlight element m =
     \<lparr>h_id = generateId (fst m), h_text = fst m,
      h_range = (case findRangeForMatch element (fst m) of
                   Inr (Some rng) \<Rightarrow> rng
                 | _ \<Rightarrow> AtDocumentStart),
      h_state = pendingState (snd m)\<rparr>"

definition idOf :: "jsstring \<times> jsstring \<Rightarrow> jsstring" where
  "idOf m = generateId (fst m)"

definition resolves :: "node list \<Rightarrow> jsstring \<times> jsstring \<Rightarrow> bool" where
  "resolves element m \<longleftrightarrow> \<not> isl (findRangeForMatch element (fst m))"

lemma Map_has_get: "Map_has k m \<longleftrightarrow> Map_get k m \<noteq> None"
  by (induction m) (auto simp: Map_has_def Map_get_def)

lemma Map_set_absent: "\<not> Map_has k m \<Longrightarrow> Map_set k v m = m @ [(k, v)]"
  by (induction m) (auto simp: Map_has_def)

lemma Map_get_append:
  "Map_get i (m @ [(k, v)])
     = (case Map_get i m of Some x \<Rightarrow> Some x | None \<Rightarrow> if i = k then Some v else None)"
  by (induction m) (auto simp: Map_get_def)


lemma Map_get_in_keys: "Map_get i m = Some h \<Longrightarrow> i \<in> set (map fst m)"
  by (induction m) (auto simp: Map_get_def split: if_splits)

text \<open>The text of a match is found in the surface, so the result is not \<open>null\<close>.\<close>

lemma findRange_match:
  assumes "(m0, m1) \<in> set (matchAll (textContents element))"
  shows "findRangeForMatch element m0 \<noteq> Inr None"
proof -
  have "indexOf (textContents element) m0 \<noteq> None"
    using matchAll_occurs[OF assms] indexOf_Some_iff[of _ m0] by blast
  then show ?thesis
    by (auto simp: findRangeForMatch_def split: option.splits walk.splits)
qed

lemma resolves_match:
  assumes "m \<in> set (matchAll (textContents element))" and "resolves element m"
  shows "\<exists>rng. findRangeForMatch element (fst m) = Inr (Some rng)"
proof -
  from assms(1) have "findRangeForMatch element (fst m) \<noteq> Inr None"
    using findRange_match[of "fst m" "snd m" element] by simp
  with assms(2) show ?thesis
    by (cases "findRangeForMatch element (fst m)") (auto simp: resolves_def)
qed

text \<open>In a surface that is one paragraph with one text node nothing is thrown.\<close>

lemma oneParagraph_resolves: "resolves (oneParagraph t) m"
proof (cases "indexOf t (fst m)")
  case None
  then show ?thesis
    by (simp add: resolves_def findRangeForMatch_def oneParagraph_def)
next
  case (Some i)
  from indexOf_Some_bound[OF this] Some show ?thesis
    by (simp add: resolves_def findRangeForMatch_def oneParagraph_def)
qed

subsection \<open>The first loop\<close>

lemma addMatch_present:
  "Map_has (idOf m) (highlights st) \<Longrightarrow> addMatch element m st = (None, st)"
  by (simp add: addMatch_def idOf_def)

lemma addMatch_found:
  assumes "findRangeForMatch element (fst m) = Inr (Some rng)"
  shows "addMatch element m st =
    (None,
     if Map_has (idOf m) (highlights st) then st
     else st\<lparr>highlights := highlights st @ [(idOf m, freshHighlight element m)],
             pendingLinks := Set_add (snd m) (pendingLinks st)\<rparr>)"
  using assms
  by (auto simp: addMatch_def Let_def idOf_def freshHighlight_def pendingState_def Map_set_absent)

text \<open>In any case a match leaves the processor as it is or adds one new pending highlight.\<close>

lemma addMatch_cases:
  "snd (addMatch element m st) = st
   \<or> (\<not> Map_has (idOf m) (highlights st)
      \<and> snd (addMatch element m st)
          = st\<lparr>highlights := highlights st @ [(idOf m, freshHighlight element m)],
               pendingLinks := Set_add (snd m) (pendingLinks st)\<rparr>)"
proof (cases "findRangeForMatch element (fst m)")
  case (Inl err)
  then show ?thesis
    by (simp add: addMatch_def Let_def)
next
  case (Inr r)
  show ?thesis
  proof (cases r)
    case None
    with Inr show ?thesis
      by (simp add: addMatch_def Let_def)
  next
    case (Some rng)
    with Inr show ?thesis
      by (simp add: addMatch_found)
  qed
qed

lemma addMatch_frame [simp]:
  "highlightOverlay (snd (addMatch element m st)) = highlightOverlay st"
  "inputDiv (snd (addMatch element m st)) = inputDiv st"
  "isProcessing (snd (addMatch element m st)) = isProcessing st"
  "shouldBypassInterception (snd (addMatch element m st)) = shouldBypassInterception st"
  "loadingIndicator (snd (addMatch element m st)) = loadingIndicator st"
  "submitButton (snd (addMatch element m st)) = submitButton st"
  "contextCache (snd (addMatch element m st)) = contextCache st"
  "fetchCalls (snd (addMatch element m st)) = fetchCalls st"
  "storageOps (snd (addMatch element m st)) = storageOps st"
  "trace (snd (addMatch element m st)) = trace st"
  "tasks (snd (addMatch element m st)) = tasks st"
  "nextGroup (snd (addMatch element m st)) = nextGroup st"
  "waiting (snd (addMatch element m st)) = waiting st"
  using addMatch_cases[of element m st] by auto

lemma addMatches_Cons:
  "addMatches element (m # ms) st =
     (if fst (addMatch element m st) = None then addMatches element ms (snd (addMatch element m st))
      else addMatch element m st)"
  by (cases "addMatch element m st") (auto split: option.splits)

lemma addMatches_frame [simp]:
  "highlightOverlay (snd (addMatches element ms st)) = highlightOverlay st"
  "inputDiv (snd (addMatches element ms st)) = inputDiv st"
  "isProcessing (snd (addMatches element ms st)) = isProcessing st"
  "shouldBypassInterception (snd (addMatches element ms st)) = shouldBypassInterception st"
  "loadingIndicator (snd (addMatches element ms st)) = loadingIndicator st"
  "submitButton (snd (addMatches element ms st)) = submitButton st"
  "contextCache (snd (addMatches element ms st)) = contextCache st"
  "fetchCalls (snd (addMatches element ms st)) = fetchCalls st"
  "storageOps (snd (addMatches element ms st)) = storageOps st"
  "trace (snd (addMatches element ms st)) = trace st"
  "tasks (snd (addMatches element ms st)) = tasks st"
  "nextGroup (snd (addMatches element ms st)) = nextGroup st"
  "waiting (snd (addMatches element ms st)) = waiting st"
  by (induction ms arbitrary: st; simp add: addMatches_Cons del: addMatches.simps(2))+

lemma removeStale_frame [simp]:
  "highlightOverlay (removeStale cur es st) = highlightOverlay st"
  "inputDiv (removeStale cur es st) = inputDiv st"
  "isProcessing (removeStale cur es st) = isProcessing st"
  "shouldBypassInterception (removeStale cur es st) = shouldBypassInterception st"
  "loadingIndicator (removeStale cur es st) = loadingIndicator st"
  "submitButton (removeStale cur es st) = submitButton st"
  "contextCache (removeStale cur es st) = contextCache st"
  "fetchCalls (removeStale cur es st) = fetchCalls st"
  "storageOps (removeStale cur es st) = storageOps st"
  "trace (removeStale cur es st) = trace st"
  "tasks (removeStale cur es st) = tasks st"
  "nextGroup (removeStale cur es st) = nextGroup st"
  by (induction cur es st rule: removeStale.induct; simp)+

text \<open>When nothing is thrown, the loop comes to its end.\<close>

lemma addMatches_resolved:
  assumes "\<forall>m\<in>set ms. \<exists>rng. findRangeForMatch element (fst m) = Inr (Some rng)"
  shows "fst (addMatches element ms st) = None"
  using assms
proof (induction ms arbitrary: st)
  case Nil
  then show ?case by simp
next
  case (Cons m ms)
  from Cons.prems obtain rng where "findRangeForMatch element (fst m) = Inr (Some rng)"
    by auto
  then have "fst (addMatch element m st) = None"
    by (simp add: addMatch_found)
  with Cons show ?case
    by (simp add: addMatches_Cons del: addMatches.simps(2))
qed

lemma addMatches_step:
  assumes "findRangeForMatch element (fst m) = Inr (Some rng)"
  shows "addMatches element (m # ms) st = addMatches element ms (snd (addMatch element m st))"
  using assms by (simp add: addMatches_Cons addMatch_found del: addMatches.simps(2))

lemma addMatches_all_new:
  assumes "\<forall>m\<in>set ms. \<exists>rng. findRangeForMatch element (fst m) = Inr (Some rng)"
    and "distinct (map idOf ms)"
    and "\<forall>m\<in>set ms. \<not> Map_has (idOf m) (highlights st)"
  shows "highlights (snd (addMatches element ms st))
      = highlights st @ map (\<lambda>m. (idOf m, freshHighlight element m)) ms
    \<and> set (pendingLinks (snd (addMatches element ms st))) = set (pendingLinks st) \<union> snd ` set ms"
  using assms
proof (induction ms arbitrary: st)
  case Nil
  then show ?case by simp
next
  case (Cons m ms)
  from Cons.prems(1) obtain rng where rng: "findRangeForMatch element (fst m) = Inr (Some rng)"
    by auto
  define st1 where "st1 = snd (addMatch element m st)"
  have st1: "st1 = st\<lparr>highlights := highlights st @ [(idOf m, freshHighlight element m)],
             pendingLinks := Set_add (snd m) (pendingLinks st)\<rparr>"
    using Cons.prems(3) by (simp add: st1_def addMatch_found[OF rng])
  have "idOf m \<notin> idOf ` set ms"
    using Cons.prems(2) by simp
  then have "\<forall>m'\<in>set ms. idOf m' \<noteq> idOf m"
    by (metis imageI)
  then have "\<forall>m'\<in>set ms. \<not> Map_has (idOf m') (highlights st1)"
    using Cons.prems(3) by (simp add: st1 Map_has_def)
  with Cons.IH[of st1] Cons.prems
  have "highlights (snd (addMatches element ms st1))
      = highlights st1 @ map (\<lambda>m. (idOf m, freshHighlight element m)) ms
    \<and> set (pendingLinks (snd (addMatches element ms st1))) = set (pendingLinks st1) \<union> snd ` set ms"
    by simp
  then show ?case
    unfolding addMatches_step[OF rng] st1_def[symmetric]
    by (auto simp: st1 Set_add_def)
qed






subsection \<open>The second loop\<close>

lemma removeStale_highlights:
  "highlights (removeStale cur es st)
     = filter (\<lambda>(k, h). k \<in> set cur \<or> k \<notin> fst ` set es) (highlights st)"
proof (induction cur es st rule: removeStale.induct)
  case (1 cur st)
  then show ?case by simp
next
  case (2 cur ident highlight entries st)
  then show ?case
    by (auto simp: Map_delete_def intro!: filter_cong)
qed

lemma removeStale_pending:
  "pendingLinks (removeStale cur es st)
     = filter (\<lambda>u. u \<notin> set (map (\<lambda>e. url (h_state (snd e)))
                                (filter (\<lambda>e. fst e \<notin> set cur) es)))
         (pendingLinks st)"
proof (induction cur es st rule: removeStale.induct)
  case (1 cur st)
  then show ?case by simp
next
  case (2 cur ident highlight entries st)
  then show ?case
    by (auto simp: Set_delete_def intro!: filter_cong)
qed

lemma updateHighlights_unfold:
  assumes "inputDiv st = Some element" and "highlightOverlay st"
    and "fst (addMatches element (matchAll (textContents element)) st) = None"
  shows "updateHighlights st =
     (None,
      renderHighlights
        (removeStale (map idOf (matchAll (textContents element)))
           (highlights (snd (addMatches element (matchAll (textContents element)) st)))
           (snd (addMatches element (matchAll (textContents element)) st))))"
  using assms
  by (cases "addMatches element (matchAll (textContents element)) st")
     (simp add: updateHighlights_def Let_def idOf_def[abs_def])

lemma updateHighlights_thrown:
  assumes "inputDiv st = Some element" and "highlightOverlay st"
    and "fst (addMatches element (matchAll (textContents element)) st) = Some err"
  shows "updateHighlights st = addMatches element (matchAll (textContents element)) st"
  using assms
  by (cases "addMatches element (matchAll (textContents element)) st")
     (simp add: updateHighlights_def Let_def)

section \<open>One reconciliation of a new page\<close>

text \<open>Two mentions with different ids, and two with different text and the same id.\<close>

definition twoMentions :: jsstring where
  "twoMentions = js ''@link https://example.com and @link  http://a.b''"

definition collidingText :: jsstring where
  "collidingText = js ''@link http://a.b @link http://a_b''"

text \<open>
  Claim C1, as stated, fails: two mentions whose texts differ only in characters that are
  not word characters have the same id, and the second gets no highlight and its URL is
  not added to the pending set.
\<close>

theorem distinct_text_one_highlight:
  "matchAll collidingText
     = [(js ''@link http://a.b'', js ''http://a.b''), (js ''@link http://a_b'', js ''http://a_b'')]
   \<and> distinct (map fst (matchAll collidingText))
   \<and> (let st = snd (updateHighlights (initial (oneParagraph collidingText)))
      in (map fst (highlights st), pendingLinks st))
     = ([js ''_link_http___a_b''], [js ''http://a.b''])"
  by code_simp

text \<open>
  It fails too when the text of a mention is spread over two text nodes, as it is when a
  part of it is formatted: \<open>findRangeForMatch\<close> throws, and the reconciliation ends without
  a highlight for the mention.
\<close>

definition splitMention :: "node list" where
  "splitMention =
     [ElementNode [TextNode (js ''@link https://exam''),
                   ElementNode [TextNode (js ''ple.com'')]]]"

lemma split_mention_gets_no_highlight:
  "matchAll (textContents splitMention) = [(js ''@link https://example.com'', exampleUrl)]
   \<and> updateHighlights (initial splitMention) = (Some IndexSizeError, initial splitMention)"
  by code_simp

text \<open>
  Claim C1, amended. Let the overlay be there and the highlight store be empty, let the N
  matches of the scanner in the text of the surface have pairwise different ids, and let
  \<open>findRangeForMatch\<close> throw for none of them. Then one reconciliation comes to its end
  and leaves exactly N highlights, one for each match in the order of the text, each with
  the id derived from the matched text, that text, the extracted URL and the status
  \<open>pending\<close>; and every extracted URL is in the pending set.
\<close>

theorem reconcile_from_empty:
  assumes "inputDiv st = Some element"
    and "highlightOverlay st"
    and "highlights st = []"
    and "distinct (map idOf (matchAll (textContents element)))"
    and "\<forall>m\<in>set (matchAll (textContents element)). resolves element m"
  shows "fst (updateHighlights st) = None
    \<and> highlights (snd (updateHighlights st))
        = map (\<lambda>m. (idOf m, freshHighlight element m)) (matchAll (textContents element))
    \<and> length (highlights (snd (updateHighlights st))) = length (matchAll (textContents element))
    \<and> (\<forall>m\<in>set (matchAll (textContents element)).
          snd m \<in> set (pendingLinks (snd (updateHighlights st))))"
proof -
  define ms where "ms = matchAll (textContents element)"
  define st1 where "st1 = snd (addMatches element ms st)"
  have found: "\<forall>m\<in>set ms. \<exists>rng. findRangeForMatch element (fst m) = Inr (Some rng)"
    using assms(5) resolves_match[of _ element] by (auto simp: ms_def)
  have ok: "fst (addMatches element ms st) = None"
    using found by (rule addMatches_resolved)
  have new: "\<forall>m\<in>set ms. \<not> Map_has (idOf m) (highlights st)"
    using assms(3) by (simp add: Map_has_def)
  from addMatches_all_new[OF found _ new] assms(3,4)
  have h1: "highlights st1 = map (\<lambda>m. (idOf m, freshHighlight element m)) ms"
    and p1: "set (pendingLinks st1) = set (pendingLinks st) \<union> snd ` set ms"
    by (simp_all add: st1_def ms_def)
  have uh: "updateHighlights st
      = (None, renderHighlights (removeStale (map idOf ms) (highlights st1) st1))"
    using updateHighlights_unfold[OF assms(1,2)] ok by (simp add: ms_def st1_def)
  have keep: "filter (\<lambda>(k, h). k \<in> set (map idOf ms) \<or> k \<notin> fst ` set (highlights st1)) (highlights st1)
      = highlights st1"
  proof -
    have "\<forall>e\<in>set (highlights st1). fst e \<in> set (map idOf ms)"
      by (auto simp: h1)
    then show ?thesis
      by (auto simp: filter_id_conv)
  qed
  have h2: "highlights (snd (updateHighlights st)) = highlights st1"
    using keep by (simp add: uh removeStale_highlights)
  have "filter (\<lambda>e. fst e \<notin> set (map idOf ms)) (highlights st1) = []"
    by (auto simp: h1 filter_empty_conv)
  then have p2: "pendingLinks (snd (updateHighlights st)) = pendingLinks st1"
    by (simp add: uh removeStale_pending)
  show ?thesis
    using h1 h2 p1 p2 uh by (auto simp: ms_def)
qed

theorem reconcile_from_empty_witness:
  "fst (updateHighlights (initial (oneParagraph twoMentions))) = None
   \<and> length (highlights (snd (updateHighlights (initial (oneParagraph twoMentions))))) = 2
   \<and> map (\<lambda>(i, h). (i, h_text h, url (h_state h), status (h_state h)))
        (highlights (snd (updateHighlights (initial (oneParagraph twoMentions)))))
      = [(js ''_link_https___example_com'', js ''@link https://example.com'',
          js ''https://example.com'', Pending),
         (js ''_link__http___a_b'', js ''@link  http://a.b'', js ''http://a.b'', Pending)]
   \<and> js ''http://a.b'' \<in> set (pendingLinks (snd (updateHighlights (initial (oneParagraph twoMentions)))))"
proof -
  have h1: "inputDiv (initial (oneParagraph twoMentions)) = Some (oneParagraph twoMentions)"
    and h2: "highlightOverlay (initial (oneParagraph twoMentions))"
    and h3: "highlights (initial (oneParagraph twoMentions)) = []"
    by (simp_all add: initial_def)
  have tc: "textContents (oneParagraph twoMentions) = twoMentions"
    by (simp add: oneParagraph_def)
  have ms: "matchAll twoMentions
      = [(js ''@link https://example.com'', js ''https://example.com''),
         (js ''@link  http://a.b'', js ''http://a.b'')]"
    by code_simp
  have ids: "idOf (js ''@link https://example.com'', js ''https://example.com'')
        = js ''_link_https___example_com''"
      "idOf (js ''@link  http://a.b'', js ''http://a.b'') = js ''_link__http___a_b''"
    by code_simp+
  have h4: "distinct (map idOf (matchAll (textContents (oneParagraph twoMentions))))"
    unfolding tc ms by (simp add: ids) code_simp
  have h5: "\<forall>m\<in>set (matchAll (textContents (oneParagraph twoMentions))).
      resolves (oneParagraph twoMentions) m"
    by (simp add: oneParagraph_resolves)
  from reconcile_from_empty[OF h1 h2 h3 h4 h5] show ?thesis
    unfolding tc ms by (simp add: ids freshHighlight_def pendingState_def)
qed



lemma addMatch_pending_mono:
  "set (pendingLinks st) \<subseteq> set (pendingLinks (snd (addMatch element m st)))"
  using addMatch_cases[of element m st] by (auto simp: Set_add_def)

lemma addMatches_pending_mono:
  "set (pendingLinks st) \<subseteq> set (pendingLinks (snd (addMatches element ms st)))"
proof (induction ms arbitrary: st)
  case Nil
  then show ?case by simp
next
  case (Cons m ms)
  from Cons.IH[of "snd (addMatch element m st)"] addMatch_pending_mono[of st element m] show ?case
    by (auto simp: addMatches_Cons simp del: addMatches.simps(2))
qed

lemma addMatches_pending_url:
  assumes "\<forall>m\<in>set ms. \<exists>rng. findRangeForMatch element (fst m) = Inr (Some rng)"
    and "Map_get i (highlights st) = None"
    and "find (\<lambda>m. idOf m = i) ms = Some m"
  shows "snd m \<in> set (pendingLinks (snd (addMatches element ms st)))"
  using assms
proof (induction ms arbitrary: st)
  case Nil
  then show ?case by simp
next
  case (Cons m' ms)
  from Cons.prems(1) obtain rng where rng: "findRangeForMatch element (fst m') = Inr (Some rng)"
    by auto
  show ?case
  proof (cases "idOf m' = i")
    case True
    with Cons.prems have "m = m'" by simp
    moreover have "\<not> Map_has (idOf m') (highlights st)"
      using True Cons.prems(2) by (simp add: Map_has_get)
    then have "snd m' \<in> set (pendingLinks (snd (addMatch element m' st)))"
      by (simp add: addMatch_found[OF rng] Set_add_def)
    ultimately show ?thesis
      using addMatches_pending_mono[of "snd (addMatch element m' st)" element ms]
      by (auto simp: addMatches_step[OF rng] simp del: addMatches.simps(2))
  next
    case False
    with Cons.prems have "Map_get i (highlights (snd (addMatch element m' st))) = None"
      by (simp add: addMatch_found[OF rng] Map_get_append)
    with Cons.IH[of "snd (addMatch element m' st)"] Cons.prems False show ?thesis
      by (simp add: addMatches_step[OF rng] del: addMatches.simps(2))
  qed
qed


section \<open>Removing a mention and typing it again\<close>






end
